theory Spec2Isabelle
  imports Main "HOL-Library.Word" "HOL-Library.List_Lexorder" "HOL-Library.Multiset"
begin

section \<open>Strings and the insertion-ordered Map of the host language\<close>

text \<open>
  A JavaScript string is a finite sequence of 16-bit code units. Comparison of strings
  (\<open><\<close>, and the default comparator of \<open>Array.prototype.sort\<close>) is lexicographic
  on code units, which is the order \<^theory_text>\<open>List_Lexorder\<close> gives to lists of words.
\<close>

type_synonym jsstring = "16 word list"

definition js :: "string \<Rightarrow> jsstring" where
  \<comment> \<open>an ASCII literal as a JavaScript string\<close>
  "js s = map (\<lambda>c. word_of_nat (of_char c)) s"

datatype error = URIError

text \<open>
  \<open>Map<K, V>\<close> remembers insertion order and holds each key once. It is an association
  list whose keys are distinct: \<open>set\<close> on a key that is present replaces the value in
  place, \<open>set\<close> on a new key appends, \<open>delete\<close> removes the key's entry.
\<close>

type_synonym ('k, 'v) jsmap = "('k \<times> 'v) list"

definition Map_keys :: "('k, 'v) jsmap \<Rightarrow> 'k list" where
  "Map_keys m = map fst m"

definition Map_get :: "('k, 'v) jsmap \<Rightarrow> 'k \<Rightarrow> 'v option" where
  \<comment> \<open>\<open>None\<close> is \<open>undefined\<close>\<close>
  "Map_get m k = map_of m k"

definition Map_has :: "('k, 'v) jsmap \<Rightarrow> 'k \<Rightarrow> bool" where
  "Map_has m k = (k \<in> fst ` List.set m)"

fun Map_set :: "('k, 'v) jsmap \<Rightarrow> 'k \<Rightarrow> 'v \<Rightarrow> ('k, 'v) jsmap" where
  "Map_set [] k v = [(k, v)]"
| "Map_set ((k', v') # m) k v =
     (if k' = k then (k, v) # m else (k', v') # Map_set m k v)"

definition Map_delete :: "('k, 'v) jsmap \<Rightarrow> 'k \<Rightarrow> bool \<times> ('k, 'v) jsmap" where
  \<comment> \<open>the result of \<open>delete\<close> and the map afterwards\<close>
  "Map_delete m k = (Map_has m k, filter (\<lambda>p. fst p \<noteq> k) m)"

section \<open>\<open>decodeURIComponent\<close> and \<open>encodeURIComponent\<close>\<close>

text \<open>
  The two functions of the host language that \<open>decode\<close> and \<open>encode\<close> call, after
  the abstract operations \<open>Decode\<close> and \<open>Encode\<close> of ECMA-262 (with no preserved
  escapes, and with the unescaped set of \<open>encodeURIComponent\<close>). Octets and code points
  are natural numbers. The result \<open>Inl URIError\<close> is the exception thrown.
\<close>

definition hexval :: "16 word \<Rightarrow> nat option" where
  \<comment> \<open>the value of a hexadecimal digit, either case\<close>
  "hexval c =
     (let n = unat c in
      if 48 \<le> n \<and> n \<le> 57 then Some (n - 48)
      else if 65 \<le> n \<and> n \<le> 70 then Some (n - 55)
      else if 97 \<le> n \<and> n \<le> 102 then Some (n - 87)
      else None)"

fun ParseHexOctet :: "jsstring \<Rightarrow> (nat \<times> jsstring) option" where
  \<comment> \<open>the octet written by the next two code units, and the string after them\<close>
  "ParseHexOctet (a # b # rest) =
     (case hexval a of
        None \<Rightarrow> None
      | Some h \<Rightarrow> (case hexval b of None \<Rightarrow> None | Some l \<Rightarrow> Some (16 * h + l, rest)))"
| "ParseHexOctet _ = None"

definition leading_ones :: "nat \<Rightarrow> nat" where
  \<comment> \<open>the number of leading 1 bits of an octet\<close>
  "leading_ones B =
     (if B < 128 then 0 else if B < 192 then 1 else if B < 224 then 2
      else if B < 240 then 3 else if B < 248 then 4 else if B < 252 then 5
      else if B < 254 then 6 else if B < 255 then 7 else 8)"

fun continuation :: "nat \<Rightarrow> jsstring \<Rightarrow> (nat list \<times> jsstring) option" where
  \<comment> \<open>the inner loop of \<open>Decode\<close>: \<open>j\<close> more escapes \<open>%XX\<close>, each a percent sign and two digits\<close>
  "continuation 0 s = Some ([], s)"
| "continuation (Suc j) [] = None"
| "continuation (Suc j) (c # s) =
     (if c \<noteq> 0x25 then None
      else case ParseHexOctet s of
             None \<Rightarrow> None
           | Some (b, s') \<Rightarrow>
               (case continuation j s' of
                  None \<Rightarrow> None
                | Some (bs, r) \<Rightarrow> Some (b # bs, r)))"

definition is_cont :: "nat \<Rightarrow> bool" where
  \<comment> \<open>an octet \<open>10xxxxxx\<close>\<close>
  "is_cont b = (128 \<le> b \<and> b < 192)"

fun utf8_value :: "nat list \<Rightarrow> nat option" where
  \<comment> \<open>the code point of a multi-octet UTF-8 sequence whose first octet has as many leading
      1 bits as the sequence has octets; \<open>None\<close> when the octets are not a valid encoding
      (a wrong continuation octet, an overlong form, a surrogate, a value above 0x10FFFF)\<close>
  "utf8_value [b0, b1] =
     (let V = (b0 - 192) * 64 + (b1 - 128) in
      if is_cont b1 \<and> 0x80 \<le> V then Some V else None)"
| "utf8_value [b0, b1, b2] =
     (let V = (b0 - 224) * 4096 + (b1 - 128) * 64 + (b2 - 128) in
      if is_cont b1 \<and> is_cont b2 \<and> 0x800 \<le> V \<and> \<not> (0xD800 \<le> V \<and> V \<le> 0xDFFF)
      then Some V else None)"
| "utf8_value [b0, b1, b2, b3] =
     (let V = (b0 - 240) * 262144 + (b1 - 128) * 4096 + (b2 - 128) * 64 + (b3 - 128) in
      if is_cont b1 \<and> is_cont b2 \<and> is_cont b3 \<and> 0x10000 \<le> V \<and> V \<le> 0x10FFFF
      then Some V else None)"
| "utf8_value _ = None"

definition UTF16EncodeCodePoint :: "nat \<Rightarrow> jsstring" where
  "UTF16EncodeCodePoint cp =
     (if cp \<le> 0xFFFF then [word_of_nat cp]
      else [word_of_nat ((cp - 0x10000) div 0x400 + 0xD800),
            word_of_nat ((cp - 0x10000) mod 0x400 + 0xDC00)])"

definition cat :: "jsstring \<Rightarrow> error + jsstring \<Rightarrow> error + jsstring" where
  \<comment> \<open>\<open>R\<close> grows by \<open>S\<close>, unless the rest of the loop throws\<close>
  "cat S r = (case r of Inl e \<Rightarrow> Inl e | Inr R \<Rightarrow> Inr (S @ R))"

function decodeURIComponent :: "jsstring \<Rightarrow> error + jsstring" where
  "decodeURIComponent [] = Inr []"
| "decodeURIComponent (C # s) =
     (if C \<noteq> 0x25 then cat [C] (decodeURIComponent s)
      else case ParseHexOctet s of
             None \<Rightarrow> Inl URIError
           | Some (B, s') \<Rightarrow>
               (let n = leading_ones B in
                if n = 0 then cat [word_of_nat B] (decodeURIComponent s')
                else if n = 1 \<or> n > 4 then Inl URIError
                else case continuation (n - 1) s' of
                       None \<Rightarrow> Inl URIError
                     | Some (bs, s'') \<Rightarrow>
                         (case utf8_value (B # bs) of
                            None \<Rightarrow> Inl URIError
                          | Some V \<Rightarrow> cat (UTF16EncodeCodePoint V) (decodeURIComponent s''))))"
  by pat_completeness auto
termination
proof -
  have hex: "length s = length s' + 2" if "ParseHexOctet s = Some (B, s')" for s B s'
    using that by (cases s rule: ParseHexOctet.cases) (auto split: option.splits)
  have con: "length r \<le> length s" if "continuation j s = Some (bs, r)" for j s bs r
    using that
  proof (induction j s arbitrary: bs r rule: continuation.induct)
    case (3 j c s)
    from "3.prems" obtain b s' bs' where p: "ParseHexOctet s = Some (b, s')"
      and c: "continuation j s' = Some (bs', r)"
      by (auto split: if_splits option.splits prod.splits)
    from "3.IH" [OF _ p refl c] "3.prems" have "length r \<le> length s'"
      by (auto split: if_splits)
    with hex [OF p] show ?case by simp
  qed auto
  show ?thesis
    by (relation "measure length") (auto dest!: hex con)
qed

definition unescaped :: "16 word \<Rightarrow> bool" where
  \<comment> \<open>letters, digits and the marks \<open>- _ . ! ~ * ' ( )\<close>\<close>
  "unescaped c =
     (let n = unat c in
      (65 \<le> n \<and> n \<le> 90) \<or> (97 \<le> n \<and> n \<le> 122) \<or> (48 \<le> n \<and> n \<le> 57) \<or>
      n \<in> {45, 95, 46, 33, 126, 42, 39, 40, 41})"

definition is_lead :: "16 word \<Rightarrow> bool" where
  "is_lead c = (0xD800 \<le> c \<and> c \<le> 0xDBFF)"

definition is_trail :: "16 word \<Rightarrow> bool" where
  "is_trail c = (0xDC00 \<le> c \<and> c \<le> 0xDFFF)"

definition CodePointAt :: "16 word \<Rightarrow> jsstring \<Rightarrow> nat \<times> nat \<times> bool" where
  \<comment> \<open>the code point at the code unit \<open>first\<close>, followed by \<open>rest\<close>: the code point, the
      number of code units it takes, and whether it is an unpaired surrogate\<close>
  "CodePointAt first rest =
     (if \<not> is_lead first \<and> \<not> is_trail first then (unat first, 1, False)
      else if is_trail first \<or> rest = [] then (unat first, 1, True)
      else let second = hd rest in
        if \<not> is_trail second then (unat first, 1, True)
        else ((unat first - 0xD800) * 0x400 + (unat second - 0xDC00) + 0x10000, 2, False))"

definition utf8_octets :: "nat \<Rightarrow> nat list" where
  "utf8_octets cp =
     (if cp < 0x80 then [cp]
      else if cp < 0x800 then [192 + cp div 64, 128 + cp mod 64]
      else if cp < 0x10000 then [224 + cp div 4096, 128 + cp div 64 mod 64, 128 + cp mod 64]
      else [240 + cp div 262144, 128 + cp div 4096 mod 64, 128 + cp div 64 mod 64,
            128 + cp mod 64])"

definition hexdigit :: "nat \<Rightarrow> 16 word" where
  \<comment> \<open>an uppercase hexadecimal digit\<close>
  "hexdigit d = (if d < 10 then word_of_nat (48 + d) else word_of_nat (55 + d))"

definition pct :: "nat \<Rightarrow> jsstring" where
  "pct octet = [0x25, hexdigit (octet div 16), hexdigit (octet mod 16)]"

function encodeURIComponent :: "jsstring \<Rightarrow> error + jsstring" where
  "encodeURIComponent [] = Inr []"
| "encodeURIComponent (C # s) =
     (if unescaped C then cat [C] (encodeURIComponent s)
      else case CodePointAt C s of
             (cp, cnt, unpaired) \<Rightarrow>
               if unpaired then Inl URIError
               else cat (concat (map pct (utf8_octets cp)))
                        (encodeURIComponent (drop cnt (C # s))))"
  by pat_completeness auto
termination
proof -
  have cnt: "0 < cnt" if "(cp, cnt, unpaired) = CodePointAt C s" for cp cnt unpaired C s
    using that by (auto simp: CodePointAt_def Let_def split: if_splits)
  show ?thesis
    by (relation "measure length") (auto dest!: cnt)
qed

subsection \<open>\<open>split\<close> and \<open>join\<close> on a one-character separator\<close>

fun split :: "16 word \<Rightarrow> jsstring \<Rightarrow> jsstring list" where
  \<comment> \<open>\<open>s.split(sep)\<close>: the pieces between the separators; one piece, \<open>s\<close>, when there is none\<close>
  "split sep [] = [[]]"
| "split sep (c # s) =
     (if c = sep then [] # split sep s
      else case split sep s of
             p # ps \<Rightarrow> (c # p) # ps
           | [] \<Rightarrow> [[c]])"

definition split_limit :: "16 word \<Rightarrow> nat \<Rightarrow> jsstring \<Rightarrow> jsstring list" where
  \<comment> \<open>\<open>s.split(sep, lim)\<close>: the first \<open>lim\<close> pieces; the text after them is dropped\<close>
  "split_limit sep lim s = take lim (split sep s)"

fun join :: "16 word \<Rightarrow> jsstring list \<Rightarrow> jsstring" where
  "join sep [] = []"
| "join sep [p] = p"
| "join sep (p # ps) = p @ sep # join sep ps"

section \<open>The class \<open>SearchParams\<close>\<close>

subsection \<open>\<open>decode\<close> and \<open>encode\<close>\<close>

definition replace_plus :: "jsstring \<Rightarrow> jsstring" where
  \<comment> \<open>\<open>s.replace(/\+/g, ' ')\<close>\<close>
  "replace_plus s = map (\<lambda>c. if c = 0x2B then 0x20 else c) s"

definition decode :: "jsstring \<Rightarrow> error + jsstring" where
  "decode s = decodeURIComponent (replace_plus s)"

definition encode :: "jsstring \<Rightarrow> error + jsstring" where
  "encode s = encodeURIComponent s"

subsection \<open>The fields\<close>

text \<open>
  \<open>private params: Map<string, string | string[]>\<close>: a value of the map is a single
  string or an array of strings.
\<close>

datatype pvalue = Str jsstring | Arr "jsstring list"

record SearchParams =
  params :: "(jsstring, pvalue) jsmap"
  original :: jsstring

text \<open>The invariant of the representation: a Map holds a key at most once.\<close>

definition wf_store :: "SearchParams \<Rightarrow> bool" where
  "wf_store s = distinct (Map_keys (params s))"

subsection \<open>\<open>addValue\<close>, \<open>append\<close>, \<open>set\<close>, \<open>delete\<close>, \<open>has\<close>\<close>

definition addValue :: "jsstring \<Rightarrow> jsstring \<Rightarrow> SearchParams \<Rightarrow> SearchParams" where
  "addValue key val s =
     (case Map_get (params s) key of
        Some existing \<Rightarrow>
          (case existing of
             Arr vs \<Rightarrow> s\<lparr>params := Map_set (params s) key (Arr (vs @ [val]))\<rparr>
           | Str e \<Rightarrow> s\<lparr>params := Map_set (params s) key (Arr [e, val])\<rparr>)
      | None \<Rightarrow> s\<lparr>params := Map_set (params s) key (Str val)\<rparr>)"

text \<open>
  \<open>append\<close> and \<open>set\<close> take a value of any type and store \<open>String(value)\<close>. The
  conversion belongs to the host language, so it is a parameter; on a string it is the
  identity.
\<close>

definition append_sp :: "('a \<Rightarrow> jsstring) \<Rightarrow> jsstring \<Rightarrow> 'a \<Rightarrow> SearchParams \<Rightarrow> SearchParams" where
  "append_sp String key val s = addValue key (String val) s"

definition set_sp :: "('a \<Rightarrow> jsstring) \<Rightarrow> jsstring \<Rightarrow> 'a \<Rightarrow> SearchParams \<Rightarrow> SearchParams" where
  "set_sp String key val s = s\<lparr>params := Map_set (params s) key (Str (String val))\<rparr>"

definition delete :: "jsstring \<Rightarrow> SearchParams \<Rightarrow> bool \<times> SearchParams" where
  "delete key s = (case Map_delete (params s) key of (r, m) \<Rightarrow> (r, s\<lparr>params := m\<rparr>))"

definition has :: "jsstring \<Rightarrow> SearchParams \<Rightarrow> bool" where
  "has key s = Map_has (params s) key"

subsection \<open>\<open>entries\<close>, \<open>keys\<close>, \<open>values\<close>\<close>

fun entries_of :: "jsstring \<times> pvalue \<Rightarrow> (jsstring \<times> jsstring) list" where
  \<comment> \<open>the body of the loop of \<open>entries\<close>, for one pair of the map\<close>
  "entries_of (k, Arr vs) = map (\<lambda>inner. (k, inner)) vs"
| "entries_of (k, Str v) = [(k, v)]"

definition entries :: "SearchParams \<Rightarrow> (jsstring \<times> jsstring) list" where
  "entries s = concat (map entries_of (params s))"

definition keys :: "SearchParams \<Rightarrow> jsstring list" where
  "keys s = map fst (entries s)"

definition values_sp :: "SearchParams \<Rightarrow> jsstring list" where
  "values_sp s = map snd (entries s)"

subsection \<open>\<open>get\<close> and \<open>getAll\<close>\<close>

text \<open>
  \<open>!value\<close> holds of \<open>undefined\<close> and of the empty string, and of no array.
  \<open>value[0] || ''\<close> is \<open>''\<close> when the array is empty or its first element is the
  empty string. The result \<open>None\<close> of \<open>get\<close> is \<open>null\<close>.
\<close>

fun falsy :: "pvalue option \<Rightarrow> bool" where
  "falsy None = True"
| "falsy (Some (Str v)) = (v = [])"
| "falsy (Some (Arr vs)) = False"

definition get :: "jsstring \<Rightarrow> SearchParams \<Rightarrow> jsstring option" where
  "get key s =
     (let val = Map_get (params s) key in
      if falsy val then None
      else case val of
             Some (Arr vs) \<Rightarrow> (case vs of [] \<Rightarrow> Some [] | v0 # _ \<Rightarrow> if v0 = [] then Some [] else Some v0)
           | Some (Str v) \<Rightarrow> Some v
           | None \<Rightarrow> None)"

definition getAll :: "jsstring \<Rightarrow> SearchParams \<Rightarrow> jsstring list" where
  "getAll key s =
     (let val = Map_get (params s) key in
      if falsy val then []
      else case val of
             Some (Str v) \<Rightarrow> [v]
           | Some (Arr vs) \<Rightarrow> vs
           | None \<Rightarrow> [])"

subsection \<open>\<open>sort\<close>\<close>

text \<open>
  \<open>keys.sort()\<close> with no comparator orders strings by their code units; the keys of a
  Map are distinct, so the sorted array is determined. Each key of the old map is then
  set, with its value, in a new map.
\<close>

definition sort_sp :: "SearchParams \<Rightarrow> SearchParams" where
  "sort_sp s =
     (let ks = sort (Map_keys (params s));
          sorted = foldl (\<lambda>m k. case Map_get (params s) k of
                                   Some v \<Rightarrow> Map_set m k v
                                 | None \<Rightarrow> m) [] ks
      in s\<lparr>params := sorted\<rparr>)"

subsection \<open>\<open>parse\<close> and the constructor\<close>

text \<open>
  One round of the loop of \<open>parse\<close>. \<open>const [key, value] = v.split('=', 2)\<close> takes the
  first two pieces; \<open>value\<close> is \<open>undefined\<close> when there is one piece only. \<open>split\<close>
  never returns an empty array, so the first case is never taken.
\<close>

definition parse_var :: "jsstring \<Rightarrow> SearchParams \<Rightarrow> error + SearchParams" where
  "parse_var v s =
     (case split_limit 0x3D 2 v of
        [] \<Rightarrow> Inr s
      | [key] \<Rightarrow> Inr (addValue key [] s)
      | key # val # _ \<Rightarrow>
          (case decode key of
             Inl e \<Rightarrow> Inl e
           | Inr cleanKey \<Rightarrow>
               (case decode val of
                  Inl e \<Rightarrow> Inl e
                | Inr cleanValue \<Rightarrow> Inr (addValue cleanKey cleanValue s))))"

fun parse_vars :: "jsstring list \<Rightarrow> SearchParams \<Rightarrow> error + SearchParams" where
  "parse_vars [] s = Inr s"
| "parse_vars (v # vars) s =
     (case parse_var v s of Inl e \<Rightarrow> Inl e | Inr s' \<Rightarrow> parse_vars vars s')"

definition parse :: "jsstring \<Rightarrow> SearchParams \<Rightarrow> error + SearchParams" where
  "parse query s =
     (let query = (case query of c # q \<Rightarrow> if c = 0x3F then q else query | [] \<Rightarrow> query) in
      if length query = 0 then Inr s
      else parse_vars (split 0x26 query) s)"

definition SearchParams_new :: "jsstring \<Rightarrow> error + SearchParams" where
  \<comment> \<open>the constructor; an exception leaves no object\<close>
  "SearchParams_new query = parse query \<lparr>params = [], original = query\<rparr>"

subsection \<open>\<open>toString\<close>\<close>

fun toString_parts :: "(jsstring \<times> jsstring) list \<Rightarrow> error + jsstring list" where
  "toString_parts [] = Inr []"
| "toString_parts ((k, v) # es) =
     (case encode k of
        Inl e \<Rightarrow> Inl e
      | Inr ek \<Rightarrow>
          (case encode v of
             Inl e \<Rightarrow> Inl e
           | Inr ev \<Rightarrow>
               (case toString_parts es of
                  Inl e \<Rightarrow> Inl e
                | Inr parts \<Rightarrow> Inr ((ek @ 0x3D # ev) # parts))))"

definition toString :: "SearchParams \<Rightarrow> error + jsstring" where
  "toString s =
     (case toString_parts (entries s) of
        Inl e \<Rightarrow> Inl e
      | Inr parts \<Rightarrow> Inr (join 0x26 parts))"

section \<open>Orders on strings\<close>

text \<open>
  The code points of a string, read as UTF-16: a surrogate pair is one code point, any
  other code unit, an unpaired surrogate too, is its own. The order of two strings by
  code points is the lexicographic order of these lists; it is the order the
  specification names for \<open>sort\<close>.
\<close>

function code_points :: "jsstring \<Rightarrow> nat list" where
  "code_points [] = []"
| "code_points (C # s) =
     (case CodePointAt C s of
        (cp, cnt, unpaired) \<Rightarrow> cp # code_points (drop cnt (C # s)))"
  by pat_completeness auto
termination
proof -
  have cnt: "0 < cnt" if "(cp, cnt, unpaired) = CodePointAt C s" for cp cnt unpaired C s
    using that by (auto simp: CodePointAt_def Let_def split: if_splits)
  show ?thesis
    by (relation "measure length") (auto dest!: cnt)
qed

definition code_point_sorted :: "jsstring list \<Rightarrow> bool" where
  "code_point_sorted ks = sorted (map code_points ks)"

section \<open>Well-formed strings\<close>

text \<open>
  \<open>String.prototype.isWellFormed\<close>: no code point of the string is an unpaired
  surrogate. These are the strings \<open>encodeURIComponent\<close> takes without throwing.
\<close>

function IsWellFormed :: "jsstring \<Rightarrow> bool" where
  "IsWellFormed [] = True"
| "IsWellFormed (C # s) =
     (case CodePointAt C s of
        (cp, cnt, unpaired) \<Rightarrow> \<not> unpaired \<and> IsWellFormed (drop cnt (C # s)))"
  by pat_completeness auto
termination
proof -
  have cnt: "0 < cnt" if "(cp, cnt, unpaired) = CodePointAt C s" for cp cnt unpaired C s
    using that by (auto simp: CodePointAt_def Let_def split: if_splits)
  show ?thesis
    by (relation "measure length") (auto dest!: cnt)
qed

section \<open>Percent sequences in the text that is decoded\<close>

text \<open>
  The strings \<open>parse\<close> passes to \<open>decode\<close>: \<open>vars\<close> of \<open>parse\<close>, and of each
  segment with an \<open>=\<close> the two pieces \<open>key\<close> and \<open>value\<close>.
\<close>

definition segments :: "jsstring \<Rightarrow> jsstring list" where
  "segments query =
     (let query = (case query of c # q \<Rightarrow> if c = 0x3F then q else query | [] \<Rightarrow> query) in
      if length query = 0 then [] else split 0x26 query)"











section \<open>The pairs that parsing records\<close>

text \<open>
  The pair one round of the loop of \<open>parse\<close> hands to \<open>addValue\<close>, in closed form: a
  segment with no \<open>=\<close> gives itself, not decoded, and \<open>""\<close>; a segment with an \<open>=\<close>
  gives its first two pieces, decoded. The pairs of all segments, in order, unless
  decoding one of them throws.
\<close>

definition recorded_pair :: "jsstring \<Rightarrow> error + jsstring \<times> jsstring" where
  "recorded_pair v =
     (if 0x3D \<notin> set v then Inr (v, [])
      else case decode (takeWhile (\<lambda>c. c \<noteq> 0x3D) v) of
             Inl e \<Rightarrow> Inl e
           | Inr cleanKey \<Rightarrow>
               (case decode (takeWhile (\<lambda>c. c \<noteq> 0x3D) (tl (dropWhile (\<lambda>c. c \<noteq> 0x3D) v))) of
                  Inl e \<Rightarrow> Inl e
                | Inr cleanValue \<Rightarrow> Inr (cleanKey, cleanValue)))"

fun recorded_pairs :: "jsstring list \<Rightarrow> error + (jsstring \<times> jsstring) list" where
  "recorded_pairs [] = Inr []"
| "recorded_pairs (v # vars) =
     (case recorded_pair v of
        Inl e \<Rightarrow> Inl e
      | Inr p \<Rightarrow> (case recorded_pairs vars of Inl e \<Rightarrow> Inl e | Inr ps \<Rightarrow> Inr (p # ps)))"

text \<open>
  The pair of a segment in the words of the specification: the segment is split at its
  first \<open>=\<close>, the raw value is all that follows, and both are decoded; a segment with
  no \<open>=\<close> is the key, not decoded, with the value \<open>""\<close>.
\<close>

definition spec_segment_pair :: "jsstring \<Rightarrow> error + jsstring \<times> jsstring" where
  "spec_segment_pair v =
     (if 0x3D \<notin> set v then Inr (v, [])
      else case decode (takeWhile (\<lambda>c. c \<noteq> 0x3D) v) of
             Inl e \<Rightarrow> Inl e
           | Inr cleanKey \<Rightarrow>
               (case decode (tl (dropWhile (\<lambda>c. c \<noteq> 0x3D) v)) of
                  Inl e \<Rightarrow> Inl e
                | Inr cleanValue \<Rightarrow> Inr (cleanKey, cleanValue)))"

text \<open>The keys of a sequence of pairs, each where it first occurs.\<close>

definition first_occurrences :: "'a list \<Rightarrow> 'a list" where
  "first_occurrences ks = foldl (\<lambda>seen k. if k \<in> set seen then seen else seen @ [k]) [] ks"

section \<open>Properties of \<open>split\<close> and of the Map\<close>

lemma split_nonempty: "split sep s \<noteq> []"
  by (induction s) (auto split: list.splits)

lemma split_unfold:
  "split sep s =
     takeWhile (\<lambda>c. c \<noteq> sep) s #
       (case dropWhile (\<lambda>c. c \<noteq> sep) s of [] \<Rightarrow> [] | _ # r \<Rightarrow> split sep r)"
proof (induction s)
  case Nil
  show ?case by simp
next
  case (Cons c s)
  show ?case
  proof (cases "c = sep")
    case True
    then show ?thesis by simp
  next
    case False
    then show ?thesis
      using Cons.IH split_nonempty [of sep s]
      by (cases "split sep s") auto
  qed
qed

lemma Map_set_absent: "k \<notin> fst ` List.set m \<Longrightarrow> Map_set m k v = m @ [(k, v)]"
  by (induction m) auto

lemma Map_set_in_place:
  "k \<in> fst ` List.set m \<Longrightarrow>
   Map_set m k v =
     takeWhile (\<lambda>p. fst p \<noteq> k) m @ (k, v) # tl (dropWhile (\<lambda>p. fst p \<noteq> k) m)"
  by (induction m) force+

lemma Map_keys_Map_set:
  "Map_keys (Map_set m k v) = (if k \<in> fst ` List.set m then Map_keys m else Map_keys m @ [k])"
proof (cases "k \<in> fst ` List.set m")
  case True
  then show ?thesis by (induction m) (force simp: Map_keys_def)+
next
  case False
  then show ?thesis by (simp add: Map_set_absent Map_keys_def)
qed

lemma Map_set_others:
  "filter (\<lambda>p. fst p \<noteq> k) (Map_set m k v) = filter (\<lambda>p. fst p \<noteq> k) m"
  by (induction m) auto

lemma Map_get_Map_set:
  "Map_get (Map_set m k v) k' = (if k' = k then Some v else Map_get m k')"
  by (induction m) (auto simp: Map_get_def)

lemma entries_filter_key:
  "filter (\<lambda>e. fst e \<noteq> k) (concat (map entries_of m)) =
   concat (map entries_of (filter (\<lambda>p. fst p \<noteq> k) m))"
proof (induction m)
  case Nil
  show ?case by simp
next
  case (Cons p m)
  obtain k' pv where p: "p = (k', pv)" by (cases p)
  have "filter (\<lambda>e. fst e \<noteq> k) (entries_of (k', pv)) = (if k' \<noteq> k then entries_of (k', pv) else [])"
    by (cases pv) (auto simp: filter_empty_conv)
  with Cons.IH p show ?case by simp
qed

section \<open>Reading: \<open>get\<close> and \<open>getAll\<close>\<close>

text \<open>
  C1. \<open>get(key)\<close> is specified to return the first value recorded for the key, and
  \<open>null\<close> only when the key is absent. The store parsed from \<open>a=\<close> has the entry
  \<open>(a, "")\<close> and \<open>has("a")\<close> holds, yet \<open>get("a")\<close> is \<open>null\<close>: the test
  \<open>!value\<close> takes the empty string for a missing value.
\<close>

theorem get_of_empty_value:
  "map_sum id (\<lambda>s. (entries s, has (js ''a'') s, get (js ''a'') s)) (SearchParams_new (js ''a='')) =
     Inr ([(js ''a'', js '''')], True, None)"
  by code_simp

text \<open>
  C3. \<open>getAll(key)\<close> is specified to return all values of the key, and the empty
  array only when the key is absent. For the store parsed from \<open>a=\<close>, whose one entry
  is \<open>(a, "")\<close>, \<open>getAll("a")\<close> is the empty array: the same test \<open>!value\<close>.
\<close>

theorem getAll_of_empty_value:
  "map_sum id (\<lambda>s. (entries s, has (js ''a'') s, getAll (js ''a'') s)) (SearchParams_new (js ''a='')) =
     Inr ([(js ''a'', js '''')], True, [])"
  by code_simp

section \<open>Parsing\<close>

text \<open>
  C2. A segment is specified to be split at its first \<open>=\<close> only, the value being all
  that follows. \<open>v.split('=', 2)\<close> keeps the first two pieces and drops the text after
  the second \<open>=\<close>: the segment \<open>a=b=c\<close> is recorded with the value \<open>b\<close>.
\<close>

theorem split_limit_drops_rest:
  "split_limit 0x3D 2 (js ''a=b=c'') = [js ''a'', js ''b''] \<and>
   map_sum id entries (SearchParams_new (js ''a=b=c'')) = Inr [(js ''a'', js ''b'')]"
  by code_simp

section \<open>Writing: \<open>set\<close> and \<open>append\<close>\<close>

text \<open>
  C8. \<open>set(k, v)\<close> on a key that is present replaces the key's value where the key
  stands in the order of the map, and leaves every other pair, and the order, as they
  were; on a key that is absent it appends the key at the end. The entries of the other
  keys are the same before and after.
\<close>

theorem set_keeps_position:
  "params (set_sp String k v s) =
     (if has k s
      then takeWhile (\<lambda>p. fst p \<noteq> k) (params s) @ (k, Str (String v)) #
             tl (dropWhile (\<lambda>p. fst p \<noteq> k) (params s))
      else params s @ [(k, Str (String v))]) \<and>
   Map_keys (params (set_sp String k v s)) =
     (if has k s then Map_keys (params s) else Map_keys (params s) @ [k]) \<and>
   filter (\<lambda>e. fst e \<noteq> k) (entries (set_sp String k v s)) =
     filter (\<lambda>e. fst e \<noteq> k) (entries s)"
proof -
  have 1: "params (set_sp String k v s) = Map_set (params s) k (Str (String v))"
    by (simp add: set_sp_def)
  show ?thesis
    unfolding 1 has_def Map_has_def entries_def entries_filter_key Map_set_others
    by (simp add: Map_set_absent Map_set_in_place Map_keys_Map_set)
qed

text \<open>
  C9. \<open>set\<close> stores \<open>String(value)\<close> as it is, with no decoding and no encoding:
  the map holds that string for the key. \<open>getAll\<close> then returns the one string, as
  for \<open>%20+\<close>, unless the string is empty: after \<open>set("a", "")\<close> it returns the
  empty array.
\<close>

theorem set_then_getAll:
  "Map_get (params (set_sp String k v s)) k = Some (Str (String v)) \<and>
   getAll k (set_sp String k v s) = (if String v = [] then [] else [String v]) \<and>
   getAll (js ''a'') (set_sp id (js ''a'') (js ''%20+'') s) = [js ''%20+''] \<and>
   getAll (js ''a'') (set_sp id (js ''a'') (js '''') s) = []"
  by (simp add: set_sp_def getAll_def Map_get_Map_set js_def)

section \<open>The characters \<open>encodeURIComponent\<close> writes\<close>

lemma cat_Inr: "cat S r = Inr e \<longleftrightarrow> (\<exists>R. r = Inr R \<and> e = S @ R)"
  by (cases r) (auto simp: cat_def)

lemma is_lead_unat: "is_lead c \<longleftrightarrow> 0xD800 \<le> unat c \<and> unat c \<le> 0xDBFF"
  by (simp add: is_lead_def word_le_nat_alt)

lemma is_trail_unat: "is_trail c \<longleftrightarrow> 0xDC00 \<le> unat c \<and> unat c \<le> 0xDFFF"
  by (simp add: is_trail_def word_le_nat_alt)

lemma unat_code_unit: "unat (c :: 16 word) < 65536"
  using unsigned_less [of c, where 'a = nat] by simp

lemma unat_of_nat16: "n < 65536 \<Longrightarrow> unat (word_of_nat n :: 16 word) = n"
  by (simp add: unat_of_nat)

lemma CodePointAt_bound: "CodePointAt C s = (cp, cnt, u) \<Longrightarrow> cp < 0x110000"
  using unat_code_unit [of C] unat_code_unit [of "hd s"]
  by (auto simp: CodePointAt_def Let_def is_lead_unat is_trail_unat split: if_splits)

lemma utf8_octets_bound: "cp < 0x110000 \<Longrightarrow> b \<in> List.set (utf8_octets cp) \<Longrightarrow> b < 256"
  by (auto simp: utf8_octets_def split: if_splits)

lemma unat_hexdigit: "d < 16 \<Longrightarrow> unat (hexdigit d) = (if d < 10 then 48 + d else 55 + d)"
  by (simp add: hexdigit_def unat_of_nat16 del: of_nat_add)

lemma hexdigit_unescaped: "d < 16 \<Longrightarrow> unescaped (hexdigit d)"
  by (auto simp: unescaped_def unat_hexdigit)

lemma pct_chars: "b < 256 \<Longrightarrow> c \<in> List.set (pct b) \<Longrightarrow> unescaped c \<or> c = 0x25"
  by (auto simp: pct_def intro!: hexdigit_unescaped)

lemma encodeURIComponent_chars:
  "encodeURIComponent s = Inr e \<Longrightarrow> c \<in> List.set e \<Longrightarrow> unescaped c \<or> c = 0x25"
proof (induction s arbitrary: e rule: encodeURIComponent.induct)
  case 1
  then show ?case by simp
next
  case (2 C s)
  show ?case
  proof (cases "unescaped C")
    case True
    with "2.prems" obtain R where R: "encodeURIComponent s = Inr R" "e = C # R"
      by (auto simp: cat_Inr)
    with "2.IH"(1) [OF True R(1)] True "2.prems"(2) show ?thesis by auto
  next
    case False
    obtain cp cnt u where cpa: "CodePointAt C s = (cp, cnt, u)"
      by (cases "CodePointAt C s") auto
    with False "2.prems" have u: "\<not> u" by (auto split: if_splits)
    with False cpa "2.prems" obtain R where
      R: "encodeURIComponent (drop cnt (C # s)) = Inr R"
         "e = concat (map pct (utf8_octets cp)) @ R"
      by (auto simp: cat_Inr)
    from "2.prems"(2) R(2) consider b where "b \<in> List.set (utf8_octets cp)" "c \<in> List.set (pct b)"
      | "c \<in> List.set R" by auto
    then show ?thesis
    proof cases
      case 1
      with utf8_octets_bound [OF CodePointAt_bound [OF cpa]] pct_chars show ?thesis by blast
    next
      case 2
      with "2.IH"(2) [OF False cpa [symmetric] refl u R(1)] show ?thesis by simp
    qed
  qed
qed

lemma toString_parts_shape:
  "toString_parts es = Inr parts \<Longrightarrow>
   list_all2 (\<lambda>p e. \<exists>ek ev. encode (fst e) = Inr ek \<and> encode (snd e) = Inr ev \<and> p = ek @ 0x3D # ev)
     parts es"
  by (induction es arbitrary: parts) (auto split: sum.splits)


lemma encode_no_reserved:
  assumes "encode s = Inr e" and "\<not> unescaped c" and "c \<noteq> 0x25"
  shows "c \<notin> List.set e"
  using assms encodeURIComponent_chars [of s e c] by (auto simp: encode_def)




section \<open>\<open>sort\<close>\<close>

lemma sort_fold_append:
  "distinct ks \<Longrightarrow> set ks \<subseteq> fst ` set m \<Longrightarrow> set ks \<inter> fst ` set acc = {} \<Longrightarrow>
   foldl (\<lambda>a k. case Map_get m k of Some v \<Rightarrow> Map_set a k v | None \<Rightarrow> a) acc ks =
     acc @ map (\<lambda>k. (k, the (map_of m k))) ks"
proof (induction ks arbitrary: acc)
  case Nil
  show ?case by simp
next
  case (Cons k ks)
  from Cons.prems(2) obtain v where v: "map_of m k = Some v"
    by (cases "map_of m k") (auto simp: map_of_eq_None_iff)
  from Cons.prems(3) have abs: "k \<notin> fst ` set acc" by auto
  have step: "Map_set acc k v = acc @ [(k, v)]"
    using abs by (rule Map_set_absent)
  have "set ks \<inter> fst ` set (acc @ [(k, v)]) = {}"
    using Cons.prems(1,3) by auto
  with Cons.IH [of "acc @ [(k, v)]"] Cons.prems(1,2) v step show ?case
    by (simp add: Map_get_def)
qed

lemma params_sort_sp:
  assumes "wf_store s"
  shows "params (sort_sp s) =
           map (\<lambda>k. (k, the (map_of (params s) k))) (sort (Map_keys (params s)))"
proof -
  have "distinct (sort (Map_keys (params s)))"
    using assms by (simp add: wf_store_def)
  moreover have "set (sort (Map_keys (params s))) \<subseteq> fst ` set (params s)"
    by (simp add: Map_keys_def)
  ultimately show ?thesis
    using sort_fold_append [of "sort (Map_keys (params s))" "params s" "[]"]
    by (simp add: sort_sp_def Let_def)
qed

lemma Map_keys_sort_sp:
  "wf_store s \<Longrightarrow> Map_keys (params (sort_sp s)) = sort (Map_keys (params s))"
  by (simp add: params_sort_sp Map_keys_def comp_def)

lemma Map_get_sort_sp:
  assumes "wf_store s"
  shows "Map_get (params (sort_sp s)) k = Map_get (params s) k"
proof -
  have "map_of (map (\<lambda>k. (k, the (map_of (params s) k))) ks) k =
          (if k \<in> set ks then Some (the (map_of (params s) k)) else None)" for ks
    by (induction ks) auto
  then have l: "Map_get (params (sort_sp s)) k =
      (if k \<in> fst ` set (params s) then Some (the (map_of (params s) k)) else None)"
    by (simp add: params_sort_sp [OF assms] Map_get_def Map_keys_def)
  show ?thesis
  proof (cases "k \<in> fst ` set (params s)")
    case True
    then obtain v where "map_of (params s) k = Some v"
      by (cases "map_of (params s) k") (auto simp: map_of_eq_None_iff)
    with True l show ?thesis by (simp add: Map_get_def)
  next
    case False
    then have "map_of (params s) k = None" by (simp add: map_of_eq_None_iff)
    with False l show ?thesis by (simp add: Map_get_def)
  qed
qed

lemma mset_params_sort_sp:
  assumes "wf_store s"
  shows "mset (params (sort_sp s)) = mset (params s)"
proof -
  have d: "distinct (map fst (params s))"
    using assms by (simp add: wf_store_def Map_keys_def)
  have "mset (params (sort_sp s)) =
          image_mset (\<lambda>p. (fst p, the (map_of (params s) (fst p)))) (mset (params s))"
    by (simp add: params_sort_sp [OF assms] Map_keys_def multiset.map_comp comp_def)
  also have "\<dots> = image_mset (\<lambda>p. p) (mset (params s))"
  proof (rule image_mset_cong)
    fix p assume "p \<in># mset (params s)"
    then have "(fst p, snd p) \<in> set (params s)" by simp
    with d have "map_of (params s) (fst p) = Some (snd p)" by (rule_tac map_of_is_SomeI)
    then show "(fst p, the (map_of (params s) (fst p))) = p" by simp
  qed
  finally show ?thesis by simp
qed

lemma mset_entries_cong:
  "mset m = mset m' \<Longrightarrow> mset (concat (map entries_of m)) = mset (concat (map entries_of m'))"
proof -
  assume eq: "mset m = mset m'"
  have "mset (concat (map entries_of xs)) = sum_mset (image_mset (\<lambda>p. mset (entries_of p)) (mset xs))" for xs
    by (induction xs) auto
  with eq show ?thesis by simp
qed

lemma entries_for_key:
  "distinct (map fst m) \<Longrightarrow>
   filter (\<lambda>e. fst e = k) (concat (map entries_of m)) =
     (case map_of m k of None \<Rightarrow> [] | Some pv \<Rightarrow> entries_of (k, pv))"
proof (induction m)
  case Nil
  show ?case by simp
next
  case (Cons p m)
  obtain k' pv where p: "p = (k', pv)" by (cases p)
  have f: "filter (\<lambda>e. fst e = k) (entries_of (k', pv)) = (if k' = k then entries_of (k', pv) else [])"
    by (cases pv) (auto simp: filter_empty_conv)
  show ?case
  proof (cases "k' = k")
    case True
    with Cons.prems p have "map_of m k = None"
      by (auto simp: map_of_eq_None_iff)
    with Cons p f True show ?thesis by simp
  next
    case False
    with Cons p f show ?thesis by simp
  qed
qed

lemma fst_entries_of: "e \<in> set (entries_of p) \<Longrightarrow> fst e = fst p"
  by (cases p rule: entries_of.cases) auto

lemma sorted_entry_keys:
  "sorted (map fst m) \<Longrightarrow> sorted (map fst (concat (map entries_of m)))"
proof (induction m)
  case Nil
  show ?case by simp
next
  case (Cons p m)
  have 1: "sorted (map fst (entries_of p))"
  proof -
    have "map fst (entries_of p) = replicate (length (entries_of p)) (fst p)"
      by (cases p rule: entries_of.cases) (auto simp: comp_def map_replicate_const)
    then show ?thesis by simp
  qed
  have 2: "x \<le> y" if "x \<in> set (map fst (entries_of p))"
    "y \<in> set (map fst (concat (map entries_of m)))" for x y
  proof -
    from that(1) have x: "x = fst p" by (auto dest: fst_entries_of)
    from that(2) obtain q where "q \<in> set m" "y = fst q" by (auto dest: fst_entries_of)
    with Cons.prems x show ?thesis by auto
  qed
  from Cons 1 2 show ?case by (auto simp: sorted_append simp del: set_map set_concat)
qed

text \<open>
  C5, as the code has it. After \<open>sort()\<close> the keys of the map are in ascending
  lexicographic order of their UTF-16 code units, and so are the keys of the entries;
  the map holds the same keys, each with the value it had, so the values of a key keep
  their order, and the entries are the same multiset as before.
\<close>

theorem sort_orders_keys_by_code_units:
  "wf_store s \<Longrightarrow>
     sorted (Map_keys (params (sort_sp s))) \<and>
     wf_store (sort_sp s) \<and>
     set (Map_keys (params (sort_sp s))) = set (Map_keys (params s)) \<and>
     sorted (keys (sort_sp s)) \<and>
     (\<forall>k. Map_get (params (sort_sp s)) k = Map_get (params s) k) \<and>
     (\<forall>k. getAll k (sort_sp s) = getAll k s) \<and>
     (\<forall>k. filter (\<lambda>e. fst e = k) (entries (sort_sp s)) = filter (\<lambda>e. fst e = k) (entries s)) \<and>
     mset (entries (sort_sp s)) = mset (entries s)"
proof -
  assume wf: "wf_store s"
  have k: "Map_keys (params (sort_sp s)) = sort (Map_keys (params s))"
    using wf by (rule Map_keys_sort_sp)
  have 1: "sorted (Map_keys (params (sort_sp s)))" by (simp add: k)
  have 2: "wf_store (sort_sp s)" using wf by (simp add: wf_store_def k)
  have 3: "set (Map_keys (params (sort_sp s))) = set (Map_keys (params s))" by (simp add: k)
  have 4: "sorted (keys (sort_sp s))"
    using 1 by (simp add: keys_def entries_def Map_keys_def sorted_entry_keys)
  have 5: "Map_get (params (sort_sp s)) k = Map_get (params s) k" for k
    using wf by (rule Map_get_sort_sp)
  have 6: "getAll k (sort_sp s) = getAll k s" for k
    by (simp add: getAll_def 5)
  have 7: "filter (\<lambda>e. fst e = k) (entries (sort_sp s)) = filter (\<lambda>e. fst e = k) (entries s)" for k
    using wf 2 5 [of k]
    by (simp add: entries_def wf_store_def Map_keys_def entries_for_key Map_get_def)
  have 8: "mset (entries (sort_sp s)) = mset (entries s)"
    unfolding entries_def using mset_params_sort_sp [OF wf] by (rule mset_entries_cong)
  from 1 2 3 4 5 6 7 8 show ?thesis by blast
qed

text \<open>
  C5 names the order of code points. The two orders differ on a key that starts with a
  surrogate pair and a key that starts with a code unit from 0xE000 up: the store
  parsed from the keys U+FF5E and U+1F600 (the code units 0xD83D, 0xDE00) has, after
  \<open>sort()\<close>, U+1F600 before U+FF5E, which is not ascending by code points.
\<close>

theorem sort_not_by_code_points:
  "map_sum id (\<lambda>s. (keys s, keys (sort_sp s), map code_points (Map_keys (params (sort_sp s))),
                    code_point_sorted (Map_keys (params (sort_sp s)))))
     (SearchParams_new [0xFF5E, 0x3D, 0x31, 0x26, 0xD83D, 0xDE00, 0x3D, 0x32]) =
   Inr ([[0xFF5E], [0xD83D, 0xDE00]], [[0xD83D, 0xDE00], [0xFF5E]], [[0x1F600], [0xFF5E]], False)"
proof -
  have p: "SearchParams_new [0xFF5E, 0x3D, 0x31, 0x26, 0xD83D, 0xDE00, 0x3D, 0x32] =
      Inr \<lparr>params = [([0xFF5E], Str [0x31]), ([0xD83D, 0xDE00], Str [0x32])],
           original = [0xFF5E, 0x3D, 0x31, 0x26, 0xD83D, 0xDE00, 0x3D, 0x32]\<rparr>"
    by code_simp
  have s: "params (sort_sp \<lparr>params = [([0xFF5E], Str [0x31]), ([0xD83D, 0xDE00], Str [0x32])],
           original = [0xFF5E, 0x3D, 0x31, 0x26, 0xD83D, 0xDE00, 0x3D, 0x32]\<rparr>) =
      [([0xD83D, 0xDE00], Str [0x32]), ([0xFF5E], Str [0x31])]"
    by (simp add: sort_sp_def Map_keys_def Map_get_def)
  have c: "code_points [0xD83D, 0xDE00] = [0x1F600]" "code_points [0xFF5E] = [0xFF5E]"
    by (simp_all add: CodePointAt_def is_lead_def is_trail_def)
  show ?thesis
    unfolding p
    by (simp add: keys_def entries_def s c code_point_sorted_def Map_keys_def
             del: code_points.simps)
qed

text \<open>The store of the test \<open>b=2&b=1&c=3&a=4\<close>, sorted.\<close>

theorem sort_orders_keys_by_code_units_witness:
  "wf_store \<lparr>params = [(js ''b'', Arr [js ''2'', js ''1'']), (js ''c'', Str (js ''3'')),
                      (js ''a'', Str (js ''4''))], original = js ''b=2&b=1&c=3&a=4''\<rparr> \<and>
   entries (sort_sp \<lparr>params = [(js ''b'', Arr [js ''2'', js ''1'']), (js ''c'', Str (js ''3'')),
                      (js ''a'', Str (js ''4''))], original = js ''b=2&b=1&c=3&a=4''\<rparr>) =
     [(js ''a'', js ''4''), (js ''b'', js ''2''), (js ''b'', js ''1''), (js ''c'', js ''3'')] \<and>
   sorted (Map_keys (params (sort_sp
      \<lparr>params = [(js ''b'', Arr [js ''2'', js ''1'']), (js ''c'', Str (js ''3'')),
                 (js ''a'', Str (js ''4''))], original = js ''b=2&b=1&c=3&a=4''\<rparr>)))"
proof -
  have h: "wf_store \<lparr>params = [(js ''b'', Arr [js ''2'', js ''1'']), (js ''c'', Str (js ''3'')),
                      (js ''a'', Str (js ''4''))], original = js ''b=2&b=1&c=3&a=4''\<rparr>"
    by (simp add: wf_store_def Map_keys_def js_def)
  have e: "entries (sort_sp \<lparr>params = [(js ''b'', Arr [js ''2'', js ''1'']), (js ''c'', Str (js ''3'')),
                      (js ''a'', Str (js ''4''))], original = js ''b=2&b=1&c=3&a=4''\<rparr>) =
     [(js ''a'', js ''4''), (js ''b'', js ''2''), (js ''b'', js ''1''), (js ''c'', js ''3'')]"
    by (simp add: sort_sp_def entries_def Map_keys_def Map_get_def js_def)
  from sort_orders_keys_by_code_units [OF h]
  have "sorted (Map_keys (params (sort_sp
      \<lparr>params = [(js ''b'', Arr [js ''2'', js ''1'']), (js ''c'', Str (js ''3'')),
                 (js ''a'', Str (js ''4''))], original = js ''b=2&b=1&c=3&a=4''\<rparr>)))"
    by (rule conjunct1)
  with h e show ?thesis by (intro conjI)
qed

section \<open>Decoding what \<open>encodeURIComponent\<close> wrote\<close>

lemma hexval_hexdigit: "d < 16 \<Longrightarrow> hexval (hexdigit d) = Some d"
  by (simp add: hexval_def unat_hexdigit Let_def)

lemma ParseHexOctet_pct:
  "b < 256 \<Longrightarrow> ParseHexOctet (hexdigit (b div 16) # hexdigit (b mod 16) # R) = Some (b, R)"
  by (simp add: hexval_hexdigit)

lemma decode_pct:
  "b < 256 \<Longrightarrow>
   decodeURIComponent (pct b @ R) =
     (let n = leading_ones b in
      if n = 0 then cat [word_of_nat b] (decodeURIComponent R)
      else if n = 1 \<or> n > 4 then Inl URIError
      else case continuation (n - 1) R of
             None \<Rightarrow> Inl URIError
           | Some (bs, s'') \<Rightarrow>
               (case utf8_value (b # bs) of
                  None \<Rightarrow> Inl URIError
                | Some V \<Rightarrow> cat (UTF16EncodeCodePoint V) (decodeURIComponent s'')))"
  by (simp add: pct_def ParseHexOctet_pct del: ParseHexOctet.simps)

lemma continuation_pct:
  "b < 256 \<Longrightarrow>
   continuation (Suc j) (pct b @ R) =
     (case continuation j R of None \<Rightarrow> None | Some (bs, r) \<Rightarrow> Some (b # bs, r))"
  by (simp add: pct_def ParseHexOctet_pct del: ParseHexOctet.simps)

lemma decode_utf8_1:
  assumes "cp < 0x80"
  shows "decodeURIComponent (concat (map pct (utf8_octets cp)) @ R) =
           cat (UTF16EncodeCodePoint cp) (decodeURIComponent R)"
  using assms
  by (simp add: utf8_octets_def decode_pct leading_ones_def UTF16EncodeCodePoint_def)

lemma div_mod_64_2: "(n::nat) div 64 * 64 + n mod 64 = n"
  by simp

lemma div_mod_64_3: "(n::nat) div 4096 * 4096 + n div 64 mod 64 * 64 + n mod 64 = n"
proof -
  have g: "a * 4096 + r * 64 + m = n" if "q = a * 64 + r" "n = q * 64 + m" for a r m q :: nat
    using that by simp
  have c: "n div 4096 = n div 64 div 64" by (simp add: div_mult2_eq)
  show ?thesis
    unfolding c by (rule g [of "n div 64"]) simp_all
qed

lemma div_mod_64_4:
  "(n::nat) div 262144 * 262144 + n div 4096 mod 64 * 4096 + n div 64 mod 64 * 64 + n mod 64 = n"
proof -
  have g: "a * 262144 + r * 4096 + r' * 64 + m = n"
    if "q = a * 64 + r" "q * 4096 + r' * 64 + m = n" for a r r' m q :: nat
    using that by simp
  have c: "n div 262144 = n div 4096 div 64" by (simp add: div_mult2_eq)
  show ?thesis
    unfolding c by (rule g [of "n div 4096"]) (simp_all add: div_mod_64_3)
qed

lemma utf8_value_2:
  assumes "0x80 \<le> cp" "cp < 0x800"
  shows "utf8_value [192 + cp div 64, 128 + cp mod 64] = Some cp"
  using assms by (simp add: is_cont_def Let_def)

lemma utf8_value_3:
  assumes "0x800 \<le> cp" "cp < 0x10000" "\<not> (0xD800 \<le> cp \<and> cp \<le> 0xDFFF)"
  shows "utf8_value [224 + cp div 4096, 128 + cp div 64 mod 64, 128 + cp mod 64] = Some cp"
  using assms by (simp add: is_cont_def Let_def div_mod_64_3)

lemma utf8_value_4:
  assumes "0x10000 \<le> cp" "cp < 0x110000"
  shows "utf8_value [240 + cp div 262144, 128 + cp div 4096 mod 64, 128 + cp div 64 mod 64,
                     128 + cp mod 64] = Some cp"
  using assms by (simp add: is_cont_def Let_def div_mod_64_4)

lemma decode_utf8_2:
  assumes "0x80 \<le> cp" "cp < 0x800"
  shows "decodeURIComponent (concat (map pct (utf8_octets cp)) @ R) =
           cat (UTF16EncodeCodePoint cp) (decodeURIComponent R)"
proof -
  from assms have b: "192 + cp div 64 < 256" "128 + cp mod 64 < 256" by simp_all
  from assms have n: "leading_ones (192 + cp div 64) = 2" by (simp add: leading_ones_def)
  have c: "continuation (Suc 0) (pct (128 + cp mod 64) @ R) = Some ([128 + cp mod 64], R)"
    using b by (simp add: continuation_pct)
  from assms have o: "utf8_octets cp = [192 + cp div 64, 128 + cp mod 64]"
    by (simp add: utf8_octets_def)
  show ?thesis
    unfolding o using b(1)
    by (simp add: decode_pct n c utf8_value_2 [OF assms] Let_def
             del: continuation.simps utf8_value.simps)
qed

lemma decode_utf8_3:
  assumes "0x800 \<le> cp" "cp < 0x10000" "\<not> (0xD800 \<le> cp \<and> cp \<le> 0xDFFF)"
  shows "decodeURIComponent (concat (map pct (utf8_octets cp)) @ R) =
           cat (UTF16EncodeCodePoint cp) (decodeURIComponent R)"
proof -
  from assms have b: "224 + cp div 4096 < 256" "128 + cp div 64 mod 64 < 256" "128 + cp mod 64 < 256"
    by simp_all
  from assms have n: "leading_ones (224 + cp div 4096) = 3" by (simp add: leading_ones_def)
  have c: "continuation 2 (pct (128 + cp div 64 mod 64) @ pct (128 + cp mod 64) @ R) =
      Some ([128 + cp div 64 mod 64, 128 + cp mod 64], R)"
    using b by (simp add: numeral_2_eq_2 continuation_pct del: continuation.simps(3))
  from assms have o: "utf8_octets cp = [224 + cp div 4096, 128 + cp div 64 mod 64, 128 + cp mod 64]"
    by (simp add: utf8_octets_def)
  show ?thesis
    unfolding o using b(1)
    by (simp add: decode_pct n c utf8_value_3 [OF assms] Let_def
             del: continuation.simps utf8_value.simps)
qed

lemma decode_utf8_4:
  assumes "0x10000 \<le> cp" "cp < 0x110000"
  shows "decodeURIComponent (concat (map pct (utf8_octets cp)) @ R) =
           cat (UTF16EncodeCodePoint cp) (decodeURIComponent R)"
proof -
  from assms have b: "240 + cp div 262144 < 256" "128 + cp div 4096 mod 64 < 256"
    "128 + cp div 64 mod 64 < 256" "128 + cp mod 64 < 256"
    by simp_all
  from assms have n: "leading_ones (240 + cp div 262144) = 4" by (simp add: leading_ones_def)
  have c: "continuation 3
       (pct (128 + cp div 4096 mod 64) @ pct (128 + cp div 64 mod 64) @ pct (128 + cp mod 64) @ R) =
      Some ([128 + cp div 4096 mod 64, 128 + cp div 64 mod 64, 128 + cp mod 64], R)"
    using b by (simp add: numeral_3_eq_3 continuation_pct del: continuation.simps(3))
  from assms have o: "utf8_octets cp =
      [240 + cp div 262144, 128 + cp div 4096 mod 64, 128 + cp div 64 mod 64, 128 + cp mod 64]"
    by (simp add: utf8_octets_def)
  show ?thesis
    unfolding o using b(1)
    by (simp add: decode_pct n c utf8_value_4 [OF assms] Let_def
             del: continuation.simps utf8_value.simps)
qed

lemma decode_utf8:
  assumes "cp < 0x110000" "\<not> (0xD800 \<le> cp \<and> cp \<le> 0xDFFF)"
  shows "decodeURIComponent (concat (map pct (utf8_octets cp)) @ R) =
           cat (UTF16EncodeCodePoint cp) (decodeURIComponent R)"
proof -
  consider "cp < 0x80" | "0x80 \<le> cp" "cp < 0x800" | "0x800 \<le> cp" "cp < 0x10000"
    | "0x10000 \<le> cp" by linarith
  then show ?thesis
  proof cases
    case 1
    then show ?thesis by (rule decode_utf8_1)
  next
    case 2
    then show ?thesis by (rule decode_utf8_2)
  next
    case 3
    then show ?thesis using assms(2) by (rule decode_utf8_3)
  next
    case 4
    then show ?thesis using assms(1) by (rule decode_utf8_4)
  qed
qed

lemma CodePointAt_scalar:
  assumes "CodePointAt C s = (cp, cnt, False)"
  shows "\<not> (0xD800 \<le> cp \<and> cp \<le> 0xDFFF)"
  using assms
  by (auto simp: CodePointAt_def Let_def is_lead_unat is_trail_unat split: if_splits)

lemma CodePointAt_units:
  assumes "CodePointAt C s = (cp, cnt, False)"
  shows "UTF16EncodeCodePoint cp @ drop cnt (C # s) = C # s"
proof (cases "is_lead C \<or> is_trail C")
  case False
  with assms have "cp = unat C" "cnt = 1" by (auto simp: CodePointAt_def)
  with unat_code_unit [of C] show ?thesis by (simp add: UTF16EncodeCodePoint_def)
next
  case True
  with assms obtain d s' where s: "s = d # s'" and l: "is_lead C" and t: "is_trail d"
    and cp: "cp = (unat C - 0xD800) * 0x400 + (unat d - 0xDC00) + 0x10000" and cnt: "cnt = 2"
    by (cases s) (auto simp: CodePointAt_def Let_def split: if_splits)
  from l t have r: "0xD800 \<le> unat C" "unat d - 0xDC00 < 0x400" "0xDC00 \<le> unat d"
    by (auto simp: is_lead_unat is_trail_unat)
  define a b where "a = unat C - 0xD800" and "b = unat d - 0xDC00"
  have sub: "cp - 0x10000 = a * 0x400 + b" by (simp add: cp a_def b_def)
  from r have ab: "b < 0x400" "a + 0xD800 = unat C" "b + 0xDC00 = unat d"
    by (simp_all add: a_def b_def)
  have hi: "(cp - 0x10000) div 0x400 + 0xD800 = unat C"
    unfolding sub using ab by simp
  have lo: "(cp - 0x10000) mod 0x400 + 0xDC00 = unat d"
    unfolding sub using ab by simp
  have big: "\<not> cp \<le> 0xFFFF" by (simp add: cp)
  show ?thesis
    unfolding UTF16EncodeCodePoint_def hi lo using big by (simp add: s cnt)
qed

lemma unescaped_not_percent: "unescaped C \<Longrightarrow> C \<noteq> 0x25"
  by (auto simp: unescaped_def)

lemma decode_encode:
  "encodeURIComponent s = Inr e \<Longrightarrow> decodeURIComponent e = Inr s"
proof (induction s arbitrary: e rule: encodeURIComponent.induct)
  case 1
  then show ?case by simp
next
  case (2 C s)
  show ?case
  proof (cases "unescaped C")
    case True
    with "2.prems" obtain R where R: "encodeURIComponent s = Inr R" "e = C # R"
      by (auto simp: cat_Inr)
    from "2.IH"(1) [OF True R(1)] unescaped_not_percent [OF True] R(2)
    show ?thesis by (simp add: cat_def)
  next
    case False
    obtain cp cnt u where cpa: "CodePointAt C s = (cp, cnt, u)"
      by (cases "CodePointAt C s") auto
    with False "2.prems" have u: "\<not> u" by (auto split: if_splits)
    with False cpa "2.prems" obtain R where
      R: "encodeURIComponent (drop cnt (C # s)) = Inr R"
         "e = concat (map pct (utf8_octets cp)) @ R"
      by (auto simp: cat_Inr)
    from u cpa have cpa': "CodePointAt C s = (cp, cnt, False)" by simp
    have "decodeURIComponent e = cat (UTF16EncodeCodePoint cp) (decodeURIComponent R)"
      unfolding R(2)
      using CodePointAt_bound [OF cpa] CodePointAt_scalar [OF cpa'] by (rule decode_utf8)
    also have "decodeURIComponent R = Inr (drop cnt (C # s))"
      using "2.IH"(2) [OF False cpa [symmetric] refl u R(1)] .
    finally show ?thesis
      by (simp add: cat_def CodePointAt_units [OF cpa'])
  qed
qed

section \<open>Parsing what \<open>toString\<close> wrote\<close>

lemma unescaped_not_surrogate: "unescaped C \<Longrightarrow> CodePointAt C s = (unat C, 1, False)"
  by (auto simp: unescaped_def CodePointAt_def is_lead_unat is_trail_unat Let_def)

lemma encode_total_iff: "(\<exists>e. encodeURIComponent s = Inr e) \<longleftrightarrow> IsWellFormed s"
proof (induction s rule: encodeURIComponent.induct)
  case 1
  show ?case by simp
next
  case (2 C s)
  show ?case
  proof (cases "unescaped C")
    case True
    with "2.IH"(1) show ?thesis
      by (simp add: unescaped_not_surrogate cat_Inr)
  next
    case False
    obtain cp cnt u where cpa: "CodePointAt C s = (cp, cnt, u)"
      by (cases "CodePointAt C s") auto
    show ?thesis
    proof (cases u)
      case True
      with False cpa show ?thesis by simp
    next
      case u: False
      from "2.IH"(2) [OF False cpa [symmetric] refl u] False cpa u show ?thesis
        by (simp add: cat_Inr)
    qed
  qed
qed

lemma split_no_sep: "sep \<notin> set p \<Longrightarrow> split sep p = [p]"
  by (induction p) auto

lemma split_append_sep: "sep \<notin> set p \<Longrightarrow> split sep (p @ sep # rest) = p # split sep rest"
  by (induction p) auto

lemma split_join:
  "ps \<noteq> [] \<Longrightarrow> (\<And>p. p \<in> set ps \<Longrightarrow> sep \<notin> set p) \<Longrightarrow> split sep (join sep ps) = ps"
proof (induction sep ps rule: join.induct)
  case (1 sep)
  then show ?case by simp
next
  case (2 sep p)
  then show ?case by (simp add: split_no_sep)
next
  case (3 sep p q ps)
  have "split sep (join sep (q # ps)) = q # ps"
    using "3.prems"(2) by (intro "3.IH") auto
  with "3.prems"(2) [of p] show ?case by (simp add: split_append_sep)
qed

lemma decode_of_encode: "encode k = Inr ek \<Longrightarrow> decode ek = Inr k"
proof -
  assume e: "encode k = Inr ek"
  have "(0x2B :: 16 word) \<notin> set ek"
    using e by (rule encode_no_reserved) (simp_all add: unescaped_def)
  then have "replace_plus ek = ek"
    by (auto simp: replace_plus_def intro: map_idI)
  with e show ?thesis by (simp add: decode_def encode_def decode_encode)
qed

lemma parse_var_part:
  assumes "encode k = Inr ek" "encode v = Inr ev"
  shows "parse_var (ek @ 0x3D # ev) st = Inr (addValue k v st)"
proof -
  have n: "(0x3D :: 16 word) \<notin> set ek" "(0x3D :: 16 word) \<notin> set ev"
    using assms [THEN encode_no_reserved, of "0x3D"] by (simp_all add: unescaped_def)
  then have "split 0x3D (ek @ 0x3D # ev) = [ek, ev]"
    by (simp add: split_append_sep split_no_sep)
  then show ?thesis
    using assms [THEN decode_of_encode] by (simp add: parse_var_def split_limit_def)
qed

lemma parse_vars_parts:
  "list_all2 (\<lambda>p e. \<exists>ek ev. encode (fst e) = Inr ek \<and> encode (snd e) = Inr ev \<and> p = ek @ 0x3D # ev)
     parts es \<Longrightarrow>
   parse_vars parts st = Inr (foldl (\<lambda>st e. addValue (fst e) (snd e) st) st es)"
proof (induction parts es arbitrary: st rule: list_all2_induct)
  case Nil
  show ?case by simp
next
  case (Cons p parts e es)
  from Cons.hyps(1) obtain ek ev where "encode (fst e) = Inr ek" "encode (snd e) = Inr ev"
    "p = ek @ 0x3D # ev" by blast
  then have "parse_var p st = Inr (addValue (fst e) (snd e) st)"
    by (simp add: parse_var_part)
  with Cons.IH show ?case by simp
qed

lemma Map_set_at:
  "k \<notin> fst ` set m0 \<Longrightarrow> Map_set (m0 @ (k, pv) # rest) k x = m0 @ (k, x) # rest"
  by (induction m0) auto

lemma Map_get_at:
  "k \<notin> fst ` set m0 \<Longrightarrow> Map_get (m0 @ (k, pv) # rest) k = Some pv"
  by (induction m0) (auto simp: Map_get_def)

lemma params_addValue_absent:
  "k \<notin> fst ` set (params st) \<Longrightarrow> params (addValue k v st) = params st @ [(k, Str v)]"
proof -
  assume a: "k \<notin> fst ` set (params st)"
  then have "Map_get (params st) k = None" by (simp add: Map_get_def map_of_eq_None_iff)
  with a show ?thesis by (simp add: addValue_def Map_set_absent)
qed

lemma params_addValue_last:
  assumes "k \<notin> fst ` set m0" "params st = m0 @ [(k, pv)]"
  shows "\<exists>pv'. params (addValue k v st) = m0 @ [(k, pv')] \<and>
           entries_of (k, pv') = entries_of (k, pv) @ [(k, v)]"
  using assms
  by (cases pv) (simp_all add: addValue_def Map_get_at Map_set_at)

lemma fold_values_last:
  assumes "k \<notin> fst ` set m0" "params st = m0 @ [(k, pv)]"
  shows "\<exists>pv'. params (foldl (\<lambda>st e. addValue (fst e) (snd e) st) st (map (Pair k) vs)) =
                  m0 @ [(k, pv')] \<and>
           entries_of (k, pv') = entries_of (k, pv) @ map (Pair k) vs"
  using assms(2)
proof (induction vs arbitrary: st pv)
  case Nil
  then show ?case by simp
next
  case (Cons v vs)
  from params_addValue_last [OF assms(1) Cons.prems, of v] obtain pv1 where
    1: "params (addValue k v st) = m0 @ [(k, pv1)]"
       "entries_of (k, pv1) = entries_of (k, pv) @ [(k, v)]" by blast
  from Cons.IH [OF 1(1)] 1(2) show ?case by simp
qed

lemma fold_entries_of:
  assumes "k \<notin> fst ` set (params st)"
  shows "\<exists>m'. params (foldl (\<lambda>st e. addValue (fst e) (snd e) st) st (entries_of (k, pv))) =
                  params st @ m' \<and>
           concat (map entries_of m') = entries_of (k, pv) \<and> fst ` set m' \<subseteq> {k}"
proof (cases pv)
  case (Str v)
  with params_addValue_absent [OF assms, of v] show ?thesis
    by (intro exI [of _ "[(k, Str v)]"]) simp
next
  case (Arr vs)
  show ?thesis
  proof (cases vs)
    case Nil
    with Arr show ?thesis by (intro exI [of _ "[]"]) simp
  next
    case (Cons v vs')
    from fold_values_last [OF assms params_addValue_absent [OF assms, of v], of vs']
    obtain pv' where
      "params (foldl (\<lambda>st e. addValue (fst e) (snd e) st) (addValue k v st) (map (Pair k) vs')) =
         params st @ [(k, pv')]"
      "entries_of (k, pv') = (k, v) # map (Pair k) vs'" by auto
    with Arr Cons show ?thesis
      by (intro exI [of _ "[(k, pv')]"]) simp
  qed
qed

lemma fold_entries:
  assumes "distinct (map fst m)" "fst ` set m \<inter> fst ` set (params st) = {}"
  shows "\<exists>m'. params (foldl (\<lambda>st e. addValue (fst e) (snd e) st) st (concat (map entries_of m))) =
                  params st @ m' \<and>
           concat (map entries_of m') = concat (map entries_of m) \<and> fst ` set m' \<subseteq> fst ` set m"
  using assms
proof (induction m arbitrary: st)
  case Nil
  then show ?case by simp
next
  case (Cons p m)
  obtain k pv where p: "p = (k, pv)" by (cases p)
  from Cons.prems p have k: "k \<notin> fst ` set (params st)" "k \<notin> fst ` set m" by auto
  define st1 where "st1 = foldl (\<lambda>st e. addValue (fst e) (snd e) st) st (entries_of (k, pv))"
  from fold_entries_of [OF k(1), of pv] obtain m1 where
    1: "params st1 = params st @ m1" "concat (map entries_of m1) = entries_of (k, pv)"
       "fst ` set m1 \<subseteq> {k}" unfolding st1_def by blast
  have d: "distinct (map fst m)" using Cons.prems(1) by simp
  have "fst ` set m \<inter> fst ` set (params st1) = {}"
    using Cons.prems(2) k(2) 1(1,3) p by auto
  from Cons.IH [OF d this] obtain m2 where
    2: "params (foldl (\<lambda>st e. addValue (fst e) (snd e) st) st1 (concat (map entries_of m))) =
          params st1 @ m2"
       "concat (map entries_of m2) = concat (map entries_of m)"
       "fst ` set m2 \<subseteq> fst ` set m" by blast
  show ?case
    using 1 2 p unfolding st1_def
    by (intro exI [of _ "m1 @ m2"]) auto
qed

lemma entries_reparsed:
  assumes "wf_store s"
  shows "entries (foldl (\<lambda>st e. addValue (fst e) (snd e) st) \<lparr>params = [], original = q\<rparr> (entries s)) =
           entries s"
proof -
  from assms have "distinct (map fst (params s))" by (simp add: wf_store_def Map_keys_def)
  from fold_entries [OF this, of "\<lparr>params = [], original = q\<rparr>"]
  show ?thesis by (auto simp: entries_def)
qed

lemma toString_parts_total:
  "list_all (\<lambda>e. IsWellFormed (fst e) \<and> IsWellFormed (snd e)) es \<Longrightarrow>
   \<exists>parts. toString_parts es = Inr parts"
proof (induction es)
  case Nil
  show ?case by simp
next
  case (Cons e es)
  obtain k v where e: "e = (k, v)" by (cases e)
  from Cons.prems e obtain ek ev where "encode k = Inr ek" "encode v = Inr ev"
    using encode_total_iff [of k] encode_total_iff [of v] by (auto simp: encode_def)
  moreover from Cons obtain parts where "toString_parts es = Inr parts" by auto
  ultimately show ?case using e by simp
qed

lemma list_all2_left: "list_all2 R xs ys \<Longrightarrow> x \<in> set xs \<Longrightarrow> \<exists>y. R x y"
  by (induction rule: list_all2_induct) auto

lemma part_chars:
  assumes "encode k = Inr ek" "encode v = Inr ev" "\<not> unescaped c" "c \<noteq> 0x25" "c \<noteq> 0x3D"
  shows "c \<notin> set (ek @ 0x3D # ev)"
  using encode_no_reserved [OF assms(1,3,4)] encode_no_reserved [OF assms(2,3,4)] assms(5)
  by simp

lemma join_chars: "c \<in> set (join sep ps) \<Longrightarrow> c = sep \<or> (\<exists>p \<in> set ps. c \<in> set p)"
  by (induction sep ps rule: join.induct) auto

lemma hd_join: "p \<noteq> [] \<Longrightarrow> join sep (p # ps) \<noteq> [] \<and> hd (join sep (p # ps)) = hd p"
  by (cases ps) auto

lemma parse_plain:
  "q \<noteq> [] \<Longrightarrow> hd q \<noteq> 0x3F \<Longrightarrow> parse q st = parse_vars (split 0x26 q) st"
  by (cases q) (simp_all add: parse_def)

lemma reparse:
  assumes wf: "wf_store s" and ts: "toString s = Inr r"
  shows "\<exists>s'. SearchParams_new r = Inr s' \<and> entries s' = entries s \<and> toString s' = Inr r"
proof -
  let ?R = "\<lambda>p e. \<exists>ek ev. encode (fst e) = Inr ek \<and> encode (snd e) = Inr ev \<and> p = ek @ 0x3D # ev"
  from ts obtain parts where p: "toString_parts (entries s) = Inr parts" "r = join 0x26 parts"
    by (auto simp: toString_def split: sum.splits)
  have R: "list_all2 ?R parts (entries s)" using p(1) by (rule toString_parts_shape)
  define s' where
    "s' = foldl (\<lambda>st e. addValue (fst e) (snd e) st) \<lparr>params = [], original = r\<rparr> (entries s)"
  have e: "entries s' = entries s" unfolding s'_def using wf by (rule entries_reparsed)
  then have t: "toString s' = Inr r" using ts by (simp add: toString_def)
  have "SearchParams_new r = Inr s'"
  proof (cases parts)
    case Nil
    with R p(2) show ?thesis
      by (simp add: SearchParams_new_def parse_def s'_def)
  next
    case (Cons p0 ps)
    have shape: "\<exists>e ek ev. encode (fst e) = Inr ek \<and> encode (snd e) = Inr ev \<and> p = ek @ 0x3D # ev"
      if "p \<in> set parts" for p
      using list_all2_left [OF R that] by blast
    have amp: "(0x26 :: 16 word) \<notin> set p" if "p \<in> set parts" for p
    proof -
      from shape [OF that] obtain e ek ev where
        "encode (fst e) = Inr ek" "encode (snd e) = Inr ev" "p = ek @ 0x3D # ev" by blast
      then show ?thesis
        using part_chars [of "fst e" ek "snd e" ev "0x26"] by (simp add: unescaped_def)
    qed
    have sp: "split 0x26 r = parts"
      unfolding p(2) using Cons amp by (intro split_join) auto
    from shape [of p0] Cons obtain e ek ev where
      p0: "encode (fst e) = Inr ek" "encode (snd e) = Inr ev" "p0 = ek @ 0x3D # ev" by auto
    have "hd p0 \<in> set p0" using p0(3) by (cases ek) auto
    with part_chars [OF p0(1,2), of "0x3F"] p0(3) have "hd p0 \<noteq> 0x3F"
      by (auto simp: unescaped_def)
    moreover have "p0 \<noteq> []" using p0(3) by simp
    ultimately have "r \<noteq> []" "hd r \<noteq> 0x3F"
      unfolding p(2) Cons using hd_join [of p0 "0x26" ps] by simp_all
    then have "SearchParams_new r = parse_vars parts \<lparr>params = [], original = r\<rparr>"
      by (simp add: SearchParams_new_def parse_plain sp)
    with parse_vars_parts [OF R] show ?thesis by (simp add: s'_def)
  qed
  with e t show ?thesis by blast
qed

lemma toString_no_plus:
  assumes "toString s = Inr r"
  shows "0x2B \<notin> set r"
proof
  let ?R = "\<lambda>p e. \<exists>ek ev. encode (fst e) = Inr ek \<and> encode (snd e) = Inr ev \<and> p = ek @ 0x3D # ev"
  assume c: "0x2B \<in> set r"
  from assms obtain parts where p: "toString_parts (entries s) = Inr parts" "r = join 0x26 parts"
    by (auto simp: toString_def split: sum.splits)
  have R: "list_all2 ?R parts (entries s)" using p(1) by (rule toString_parts_shape)
  from c p(2) join_chars [of "0x2B" "0x26" parts] obtain q where q: "q \<in> set parts" "0x2B \<in> set q"
    by auto
  from list_all2_left [OF R q(1)] obtain e ek ev where
    "encode (fst e) = Inr ek" "encode (snd e) = Inr ev" "q = ek @ 0x3D # ev"
    by blast
  with part_chars [of "fst e" ek "snd e" ev "0x2B"] q(2) show False
    by (simp add: unescaped_def)
qed

text \<open>
  C7, as the code has it. For a store whose keys and values are well-formed strings (no
  unpaired surrogate), \<open>toString()\<close> returns the entries of \<open>entries()\<close>, in
  that order, each as the encoded key, \<open>=\<close> and the encoded value, joined by
  \<open>&\<close>; the result holds no \<open>+\<close>, and a space is written \<open>%20\<close>. A store
  constructed from the result has the same entries, in the same order, and is written
  as the same string.
\<close>

theorem toString_reparses:
  "wf_store s \<Longrightarrow> list_all (\<lambda>e. IsWellFormed (fst e) \<and> IsWellFormed (snd e)) (entries s) \<Longrightarrow>
   \<exists>r s'. toString s = Inr r \<and>
     (\<exists>parts. r = join 0x26 parts \<and>
        list_all2 (\<lambda>p e. \<exists>ek ev. encode (fst e) = Inr ek \<and> encode (snd e) = Inr ev \<and>
                     p = ek @ 0x3D # ev) parts (entries s)) \<and>
     0x2B \<notin> set r \<and> encode [0x20] = Inr (js ''%20'') \<and>
     SearchParams_new r = Inr s' \<and> entries s' = entries s \<and> toString s' = Inr r"
proof -
  assume wf: "wf_store s"
    and ok: "list_all (\<lambda>e. IsWellFormed (fst e) \<and> IsWellFormed (snd e)) (entries s)"
  from toString_parts_total [OF ok] obtain parts where
    p: "toString_parts (entries s) = Inr parts" by blast
  then have ts: "toString s = Inr (join 0x26 parts)" by (simp add: toString_def)
  from reparse [OF wf ts] obtain s' where
    s': "SearchParams_new (join 0x26 parts) = Inr s'" "entries s' = entries s"
        "toString s' = Inr (join 0x26 parts)" by blast
  have sp: "encode [0x20] = Inr (js ''%20'')" by code_simp
  have sh: "\<exists>parts'. join 0x26 parts = join 0x26 parts' \<and>
        list_all2 (\<lambda>p e. \<exists>ek ev. encode (fst e) = Inr ek \<and> encode (snd e) = Inr ev \<and>
                     p = ek @ 0x3D # ev) parts' (entries s)"
    using toString_parts_shape [OF p] by blast
  show ?thesis
    apply (rule exI [of _ "join 0x26 parts"])
    apply (rule exI [of _ s'])
    using ts sh toString_no_plus [OF ts] sp s' apply (intro conjI)
          apply assumption+
    done
qed

text \<open>
  C7 speaks of every store. The store parsed from the unpaired surrogate 0xD800,
  \<open>=\<close> and \<open>1\<close> has the entry with that key, and \<open>toString()\<close> throws on it:
  \<open>encodeURIComponent\<close> takes no unpaired surrogate. There is no string to parse again.
\<close>

theorem toString_throws_on_unpaired_surrogate:
  "map_sum id (\<lambda>s. (wf_store s, entries s, toString s)) (SearchParams_new [0xD800, 0x3D, 0x31]) =
     Inr (True, [([0xD800], [0x31])], Inl URIError)"
proof -
  have p: "SearchParams_new [0xD800, 0x3D, 0x31] =
      Inr \<lparr>params = [([0xD800], Str [0x31])], original = [0xD800, 0x3D, 0x31]\<rparr>"
    by code_simp
  have t: "toString \<lparr>params = [([0xD800], Str [0x31])], original = [0xD800, 0x3D, 0x31]\<rparr> =
      Inl URIError"
    by (simp add: toString_def entries_def encode_def unescaped_def CodePointAt_def
                  is_lead_def is_trail_def)
  show ?thesis
    unfolding p by (simp add: t wf_store_def Map_keys_def entries_def)
qed

text \<open>The store parsed from \<open>a=%20hi&a=2&b=1\<close> is written as that string, and parsed back.\<close>

theorem toString_reparses_witness:
  "wf_store \<lparr>params = [(js ''a'', Arr [js '' hi'', js ''2'']), (js ''b'', Str (js ''1''))],
             original = js ''a=%20hi&a=2&b=1''\<rparr> \<and>
   list_all (\<lambda>e. IsWellFormed (fst e) \<and> IsWellFormed (snd e))
     (entries \<lparr>params = [(js ''a'', Arr [js '' hi'', js ''2'']), (js ''b'', Str (js ''1''))],
               original = js ''a=%20hi&a=2&b=1''\<rparr>) \<and>
   toString \<lparr>params = [(js ''a'', Arr [js '' hi'', js ''2'']), (js ''b'', Str (js ''1''))],
             original = js ''a=%20hi&a=2&b=1''\<rparr> = Inr (js ''a=%20hi&a=2&b=1'') \<and>
   map_sum id entries (SearchParams_new (js ''a=%20hi&a=2&b=1'')) =
     Inr (entries \<lparr>params = [(js ''a'', Arr [js '' hi'', js ''2'']), (js ''b'', Str (js ''1''))],
                  original = js ''a=%20hi&a=2&b=1''\<rparr>)"
proof -
  let ?S = "\<lparr>params = [(js ''a'', Arr [js '' hi'', js ''2'']), (js ''b'', Str (js ''1''))],
             original = js ''a=%20hi&a=2&b=1''\<rparr>"
  have h1: "wf_store ?S" by (simp add: wf_store_def Map_keys_def js_def)
  have h2: "list_all (\<lambda>e. IsWellFormed (fst e) \<and> IsWellFormed (snd e)) (entries ?S)"
    by (simp add: entries_def js_def CodePointAt_def is_lead_def is_trail_def)
  have t: "toString ?S = Inr (js ''a=%20hi&a=2&b=1'')" by code_simp
  from toString_reparses [OF h1 h2] obtain r s' where
    "toString ?S = Inr r" "SearchParams_new r = Inr s'" "entries s' = entries ?S" by blast
  with t have "map_sum id entries (SearchParams_new (js ''a=%20hi&a=2&b=1'')) = Inr (entries ?S)"
    by simp
  with h1 h2 t show ?thesis by (intro conjI)
qed

section \<open>When construction throws\<close>




























lemma SearchParams_new_segments:
  "SearchParams_new q = parse_vars (segments q) \<lparr>params = [], original = q\<rparr>"
  by (simp add: SearchParams_new_def parse_def segments_def Let_def)






section \<open>The invariant holds of every store\<close>

text \<open>
  The constructor returns a store whose map holds each key once, and every method keeps
  it so; \<open>toString\<close> returns exactly on the stores whose keys and values are
  well-formed strings.
\<close>

lemma distinct_Map_set: "distinct (Map_keys m) \<Longrightarrow> distinct (Map_keys (Map_set m k v))"
  by (simp add: Map_keys_Map_set) (simp add: Map_keys_def)

lemma wf_store_addValue: "wf_store s \<Longrightarrow> wf_store (addValue k v s)"
  by (auto simp: wf_store_def addValue_def distinct_Map_set split: option.splits pvalue.splits)

lemma wf_store_set_sp: "wf_store s \<Longrightarrow> wf_store (set_sp String k v s)"
  by (simp add: wf_store_def set_sp_def distinct_Map_set)

lemma wf_store_append_sp: "wf_store s \<Longrightarrow> wf_store (append_sp String k v s)"
  by (simp add: append_sp_def wf_store_addValue)

lemma wf_store_delete: "wf_store s \<Longrightarrow> wf_store (snd (delete k s))"
  by (simp add: wf_store_def delete_def Map_delete_def Map_keys_def distinct_map_filter)

lemma wf_store_parse_var: "parse_var v s = Inr s' \<Longrightarrow> wf_store s \<Longrightarrow> wf_store s'"
  by (auto simp: parse_var_def wf_store_addValue split: list.splits sum.splits)

lemma wf_store_parse_vars: "parse_vars vars s = Inr s' \<Longrightarrow> wf_store s \<Longrightarrow> wf_store s'"
  by (induction vars arbitrary: s) (auto split: sum.splits dest: wf_store_parse_var)

lemma wf_store_SearchParams_new: "SearchParams_new q = Inr s \<Longrightarrow> wf_store s"
proof -
  assume "SearchParams_new q = Inr s"
  then have "parse_vars (segments q) \<lparr>params = [], original = q\<rparr> = Inr s"
    by (simp add: SearchParams_new_segments)
  moreover have "wf_store \<lparr>params = [], original = q\<rparr>"
    by (simp add: wf_store_def Map_keys_def)
  ultimately show ?thesis by (rule wf_store_parse_vars)
qed

lemma toString_succeeds_iff:
  "(\<exists>r. toString s = Inr r) \<longleftrightarrow>
   list_all (\<lambda>e. IsWellFormed (fst e) \<and> IsWellFormed (snd e)) (entries s)"
proof -
  have "(\<exists>parts. toString_parts es = Inr parts) \<longleftrightarrow>
      list_all (\<lambda>e. IsWellFormed (fst e) \<and> IsWellFormed (snd e)) es" for es
  proof (induction es)
    case Nil
    show ?case by simp
  next
    case (Cons e es)
    obtain k v where e: "e = (k, v)" by (cases e)
    show ?case
      using Cons encode_total_iff [of k] encode_total_iff [of v]
      by (cases "encode k"; cases "encode v"; cases "toString_parts es")
         (simp_all add: e encode_def)
  qed
  from this [of "entries s"] show ?thesis
    by (cases "toString_parts (entries s)") (simp_all add: toString_def)
qed

section \<open>What parsing records, segment by segment\<close>

text \<open>
  The constructor records the pair of every segment, in the order of the segments: the
  keys of the map are the keys of the pairs, each where it first occurs, the entries of
  a key are the pairs with that key, in their order, and so \<open>entries()\<close> lists the
  pairs key by key. It throws when decoding a segment throws. When no segment has a
  second \<open>=\<close>, the pairs are those of the specification.
\<close>

lemma parse_var_recorded:
  "parse_var v st =
     (case recorded_pair v of Inl e \<Rightarrow> Inl e | Inr p \<Rightarrow> Inr (addValue (fst p) (snd p) st))"
proof (cases "0x3D \<in> set v")
  case False
  then have tw: "takeWhile (\<lambda>c. c \<noteq> 0x3D) v = v"
    and dw: "dropWhile (\<lambda>c. c \<noteq> 0x3D) v = []"
    by auto
  have "split 0x3D v = [v]"
    by (subst split_unfold) (simp add: tw dw)
  with False show ?thesis by (simp add: parse_var_def split_limit_def recorded_pair_def)
next
  case True
  define r where "r = tl (dropWhile (\<lambda>c. c \<noteq> 0x3D) v)"
  from True have ne: "dropWhile (\<lambda>c. c \<noteq> 0x3D) v \<noteq> []"
    by auto
  have "split 0x3D v =
      takeWhile (\<lambda>c. c \<noteq> 0x3D) v #
        (case dropWhile (\<lambda>c. c \<noteq> 0x3D) v of [] \<Rightarrow> [] | _ # r \<Rightarrow> split 0x3D r)"
    by (rule split_unfold)
  also from ne have "\<dots> = takeWhile (\<lambda>c. c \<noteq> 0x3D) v # split 0x3D r"
    by (cases "dropWhile (\<lambda>c. c \<noteq> 0x3D) v") (simp_all add: r_def)
  also have "split 0x3D r = takeWhile (\<lambda>c. c \<noteq> 0x3D) r #
      (case dropWhile (\<lambda>c. c \<noteq> 0x3D) r of [] \<Rightarrow> [] | _ # r' \<Rightarrow> split 0x3D r')"
    by (rule split_unfold)
  finally have sp: "take 2 (split 0x3D v) =
      [takeWhile (\<lambda>c. c \<noteq> 0x3D) v, takeWhile (\<lambda>c. c \<noteq> 0x3D) r]"
    by simp
  show ?thesis
    unfolding parse_var_def split_limit_def sp recorded_pair_def r_def
    using True by (simp split: sum.splits)
qed

lemma parse_vars_recorded:
  "parse_vars vars st =
     (case recorded_pairs vars of
        Inl e \<Rightarrow> Inl e
      | Inr ps \<Rightarrow> Inr (foldl (\<lambda>st p. addValue (fst p) (snd p) st) st ps))"
proof (induction vars arbitrary: st)
  case Nil
  show ?case by simp
next
  case (Cons v vars)
  show ?case
  proof (cases "recorded_pair v")
    case (Inl e)
    then show ?thesis by (simp add: parse_var_recorded)
  next
    case (Inr p)
    show ?thesis
    proof (cases "recorded_pairs vars")
      case (Inl e)
      with Inr Cons.IH show ?thesis
        by (cases e) (simp add: parse_var_recorded split: sum.splits error.splits)
    next
      case ps: (Inr ps)
      with Inr Cons.IH show ?thesis by (simp add: parse_var_recorded)
    qed
  qed
qed

lemma entries_addValue:
  assumes "wf_store st"
  shows "filter (\<lambda>e. fst e = k') (entries (addValue k v st)) =
           filter (\<lambda>e. fst e = k') (entries st) @ (if k' = k then [(k, v)] else [])"
proof -
  from assms have d: "distinct (map fst (params st))"
    by (simp add: wf_store_def Map_keys_def)
  from wf_store_addValue [OF assms] have d': "distinct (map fst (params (addValue k v st)))"
    by (simp add: wf_store_def Map_keys_def)
  have g: "map_of (params (addValue k v st)) k' =
      (if k' = k
       then Some (case map_of (params st) k of
                    None \<Rightarrow> Str v | Some (Str e) \<Rightarrow> Arr [e, v] | Some (Arr vs) \<Rightarrow> Arr (vs @ [v]))
       else map_of (params st) k')"
    by (simp add: addValue_def Map_get_Map_set [unfolded Map_get_def] Map_get_def
             split: option.splits pvalue.splits)
  show ?thesis
    unfolding entries_def entries_for_key [OF d] entries_for_key [OF d'] g
    by (simp split: option.splits pvalue.splits)
qed

lemma keys_addValue:
  "Map_keys (params (addValue k v st)) =
     (if k \<in> set (Map_keys (params st)) then Map_keys (params st) else Map_keys (params st) @ [k])"
  by (simp add: addValue_def Map_keys_Map_set split: option.splits pvalue.splits)
     (simp add: Map_keys_def)

lemma fold_addValue:
  assumes "wf_store st"
  shows "wf_store (foldl (\<lambda>st p. addValue (fst p) (snd p) st) st ps) \<and>
         filter (\<lambda>e. fst e = k') (entries (foldl (\<lambda>st p. addValue (fst p) (snd p) st) st ps)) =
           filter (\<lambda>e. fst e = k') (entries st) @ filter (\<lambda>e. fst e = k') ps \<and>
         Map_keys (params (foldl (\<lambda>st p. addValue (fst p) (snd p) st) st ps)) =
           foldl (\<lambda>seen k. if k \<in> set seen then seen else seen @ [k])
             (Map_keys (params st)) (map fst ps)"
  using assms
proof (induction ps arbitrary: st)
  case Nil
  then show ?case by simp
next
  case (Cons p ps)
  let ?st1 = "addValue (fst p) (snd p) st"
  have w1: "wf_store ?st1" using Cons.prems by (rule wf_store_addValue)
  have e1: "filter (\<lambda>e. fst e = k') (entries ?st1) =
      filter (\<lambda>e. fst e = k') (entries st) @ (if k' = fst p then [(fst p, snd p)] else [])"
    using Cons.prems by (rule entries_addValue)
  have k1: "Map_keys (params ?st1) =
      (if fst p \<in> set (Map_keys (params st)) then Map_keys (params st)
       else Map_keys (params st) @ [fst p])"
    by (rule keys_addValue)
  from Cons.IH [OF w1] have
    ih1: "wf_store (foldl (\<lambda>st p. addValue (fst p) (snd p) st) ?st1 ps)" and
    ih2: "filter (\<lambda>e. fst e = k') (entries (foldl (\<lambda>st p. addValue (fst p) (snd p) st) ?st1 ps)) =
           filter (\<lambda>e. fst e = k') (entries ?st1) @ filter (\<lambda>e. fst e = k') ps" and
    ih3: "Map_keys (params (foldl (\<lambda>st p. addValue (fst p) (snd p) st) ?st1 ps)) =
           foldl (\<lambda>seen k. if k \<in> set seen then seen else seen @ [k])
             (Map_keys (params ?st1)) (map fst ps)"
    by blast+
  have f: "(if k' = fst p then [(fst p, snd p)] else []) @ filter (\<lambda>e. fst e = k') ps =
      filter (\<lambda>e. fst e = k') (p # ps)"
    by (cases "k' = fst p") auto
  have c2: "filter (\<lambda>e. fst e = k') (entries (foldl (\<lambda>st p. addValue (fst p) (snd p) st) ?st1 ps)) =
      filter (\<lambda>e. fst e = k') (entries st) @ filter (\<lambda>e. fst e = k') (p # ps)"
    unfolding ih2 e1 append_assoc f ..
  have c3: "Map_keys (params (foldl (\<lambda>st p. addValue (fst p) (snd p) st) ?st1 ps)) =
      foldl (\<lambda>seen k. if k \<in> set seen then seen else seen @ [k])
        (Map_keys (params st)) (map fst (p # ps))"
    unfolding ih3 k1 by simp
  from ih1 c2 c3 show ?case
    unfolding foldl_Cons by (intro conjI)
qed

lemma entries_by_key:
  assumes "wf_store s"
  shows "entries s = concat (map (\<lambda>k. filter (\<lambda>e. fst e = k) (entries s)) (Map_keys (params s)))"
proof -
  from assms have d: "distinct (map fst (params s))"
    by (simp add: wf_store_def Map_keys_def)
  define E where "E = concat (map entries_of (params s))"
  have one: "entries_of p = filter (\<lambda>e. fst e = fst p) E" if "p \<in> set (params s)" for p
  proof -
    from that have "(fst p, snd p) \<in> set (params s)" by simp
    with d have "map_of (params s) (fst p) = Some (snd p)" by (rule_tac map_of_is_SomeI)
    then show ?thesis unfolding E_def by (simp add: entries_for_key [OF d])
  qed
  have "map entries_of (params s) = map (\<lambda>p. filter (\<lambda>e. fst e = fst p) E) (params s)"
    by (rule map_cong [OF refl]) (rule one)
  then have "E = concat (map (\<lambda>p. filter (\<lambda>e. fst e = fst p) E) (params s))"
    unfolding E_def [symmetric] by (simp only: E_def)
  also have "\<dots> = concat (map (\<lambda>k. filter (\<lambda>e. fst e = k) E) (map fst (params s)))"
    by (simp add: comp_def)
  finally show ?thesis
    unfolding E_def entries_def Map_keys_def .
qed

lemma parse_records_every_segment:
  "recorded_pairs (segments q) = Inr ps \<Longrightarrow>
   \<exists>s. SearchParams_new q = Inr s \<and> wf_store s \<and>
       Map_keys (params s) = first_occurrences (map fst ps) \<and>
       (\<forall>k. filter (\<lambda>e. fst e = k) (entries s) = filter (\<lambda>e. fst e = k) ps) \<and>
       entries s =
         concat (map (\<lambda>k. filter (\<lambda>e. fst e = k) ps) (first_occurrences (map fst ps)))"
proof -
  assume r: "recorded_pairs (segments q) = Inr ps"
  define s where
    "s = foldl (\<lambda>st p. addValue (fst p) (snd p) st) \<lparr>params = [], original = q\<rparr> ps"
  have n: "SearchParams_new q = Inr s"
    by (simp add: SearchParams_new_segments parse_vars_recorded r s_def)
  have w0: "wf_store \<lparr>params = [], original = q\<rparr>"
    by (simp add: wf_store_def Map_keys_def)
  have w: "wf_store s" unfolding s_def using fold_addValue [OF w0] by blast
  have f: "filter (\<lambda>e. fst e = k) (entries s) = filter (\<lambda>e. fst e = k) ps" for k
    unfolding s_def using fold_addValue [OF w0, where ps = ps and k' = k]
    by (simp add: entries_def)
  have ks: "Map_keys (params s) = first_occurrences (map fst ps)"
    unfolding s_def using fold_addValue [OF w0, where ps = ps]
    by (simp add: first_occurrences_def Map_keys_def)
  have "entries s = concat (map (\<lambda>k. filter (\<lambda>e. fst e = k) ps) (first_occurrences (map fst ps)))"
    using entries_by_key [OF w] by (simp add: f ks)
  with n w ks f show ?thesis by blast
qed

lemma parse_fails_with_a_segment:
  "recorded_pairs (segments q) = Inl e \<Longrightarrow> SearchParams_new q = Inl URIError"
  by (cases e) (simp add: SearchParams_new_segments parse_vars_recorded)

lemma recorded_pair_is_spec_pair:
  assumes "count_list v 0x3D \<le> 1"
  shows "recorded_pair v = spec_segment_pair v"
proof (cases "0x3D \<in> set v")
  case False
  then show ?thesis by (simp add: recorded_pair_def spec_segment_pair_def)
next
  case True
  define r where "r = tl (dropWhile (\<lambda>c. c \<noteq> 0x3D) v)"
  from True have "dropWhile (\<lambda>c. c \<noteq> 0x3D) v \<noteq> []" by auto
  then have d: "dropWhile (\<lambda>c. c \<noteq> 0x3D) v = 0x3D # r"
    using hd_dropWhile [of "\<lambda>c. c \<noteq> 0x3D" v]
    by (cases "dropWhile (\<lambda>c. c \<noteq> 0x3D) v") (auto simp: r_def)
  have "count_list v 0x3D =
      count_list (takeWhile (\<lambda>c. c \<noteq> 0x3D) v @ dropWhile (\<lambda>c. c \<noteq> 0x3D) v) 0x3D"
    by simp
  then have "count_list v 0x3D =
      count_list (takeWhile (\<lambda>c. c \<noteq> 0x3D) v) 0x3D + count_list (0x3D # r) 0x3D"
    unfolding d by (simp only: count_list_append)
  with assms have "count_list r 0x3D = 0" by simp
  then have "0x3D \<notin> set r" by (simp add: count_list_0_iff)
  then have "takeWhile (\<lambda>c. c \<noteq> 0x3D) r = r" by auto
  then have tw: "takeWhile (\<lambda>c. c \<noteq> 0x3D) (tl (dropWhile (\<lambda>c. c \<noteq> 0x3D) v)) =
      tl (dropWhile (\<lambda>c. c \<noteq> 0x3D) v)"
    unfolding r_def .
  show ?thesis
    unfolding recorded_pair_def spec_segment_pair_def tw by (rule refl)
qed

lemma recorded_pairs_are_spec_pairs:
  "list_all (\<lambda>v. count_list v 0x3D \<le> 1) vars \<Longrightarrow> recorded_pairs vars = Inr ps \<Longrightarrow>
   list_all2 (\<lambda>v p. spec_segment_pair v = Inr p) vars ps"
proof (induction vars arbitrary: ps)
  case Nil
  then show ?case by simp
next
  case (Cons v vars)
  from Cons.prems(2) obtain p ps' where
    *: "recorded_pair v = Inr p" "recorded_pairs vars = Inr ps'" "ps = p # ps'"
    by (auto split: sum.splits)
  from Cons.prems(1) have "recorded_pair v = spec_segment_pair v"
    by (simp add: recorded_pair_is_spec_pair)
  with * Cons.IH [of ps'] Cons.prems(1) show ?case by simp
qed

text \<open>
  C6. For a segment with an \<open>=\<close> the specification records the decoded key and the
  decoded value, the value being all that follows the first \<open>=\<close>; for a segment with
  no \<open>=\<close>, the key as it is, with \<open>""\<close>. The two inputs of the claim, \<open>a%20b\<close>
  and \<open>a%20b=\<close>, are recorded so. For \<open>k=a%20b=c%20d\<close> the pair of the
  specification is \<open>(k, "a b=c d")\<close> and the constructor records \<open>(k, "a b")\<close>:
  \<open>split('=', 2)\<close> drops the text after the second \<open>=\<close> before it is decoded.
  The last input has four segments, and the key \<open>k\<close> twice.
\<close>

theorem value_is_cut_at_second_equals_sign:
  "map_sum id entries (SearchParams_new (js ''a%20b'')) = Inr [(js ''a%20b'', js '''')] \<and>
   map_sum id entries (SearchParams_new (js ''a%20b='')) = Inr [(js ''a b'', js '''')] \<and>
   spec_segment_pair (js ''k=a%20b=c%20d'') = Inr (js ''k'', js ''a b=c d'') \<and>
   map_sum id entries (SearchParams_new (js ''k=a%20b=c%20d'')) = Inr [(js ''k'', js ''a b'')] \<and>
   map_sum id entries (SearchParams_new (js ''a%20b&k=a%20b=c%20d&a%20b=1&k=2'')) =
     Inr [(js ''a%20b'', js ''''), (js ''k'', js ''a b''), (js ''k'', js ''2''),
          (js ''a b'', js ''1'')]"
proof -
  have 1: "map_sum id entries (SearchParams_new (js ''a%20b'')) = Inr [(js ''a%20b'', js '''')]"
    by code_simp
  have 2: "map_sum id entries (SearchParams_new (js ''a%20b='')) = Inr [(js ''a b'', js '''')]"
    by code_simp
  have 3: "spec_segment_pair (js ''k=a%20b=c%20d'') = Inr (js ''k'', js ''a b=c d'')"
    by code_simp
  have 4: "map_sum id entries (SearchParams_new (js ''k=a%20b=c%20d'')) = Inr [(js ''k'', js ''a b'')]"
    by code_simp
  have 5: "map_sum id entries (SearchParams_new (js ''a%20b&k=a%20b=c%20d&a%20b=1&k=2'')) =
     Inr [(js ''a%20b'', js ''''), (js ''k'', js ''a b''), (js ''k'', js ''2''),
          (js ''a b'', js ''1'')]"
    by code_simp
  from 1 2 3 4 5 show ?thesis by (intro conjI)
qed

end
